theory Spec2Isabelle
  imports Main "HOL-Library.Multiset" "HOL-Library.Char_ord" "HOL-Library.List_Lexorder"
begin

section \<open>Data model\<close>

text \<open>
  A path is the list of its components below the root, as \<open>pathlib.PurePath.parts\<close> has it.
  Python compares \<open>Path\<close> objects component by component and \<open>str\<close> objects code point by
  code point; on UTF-8 bytes the latter is the lexicographic order of \<open>char list\<close>
  (\<open>HOL-Library.Char_ord\<close>, \<open>HOL-Library.List_Lexorder\<close>), and the former the same order one
  level up.
\<close>

type_synonym path = "string list"

text \<open>
  Modelled from the spec: the class \<open>Dvk\<close> (module \<open>file/dvk.py\<close>) is not part of the sources.
  The record holds what the handler and the duplicate finder read through the accessors
  \<open>get_id()\<close>, \<open>get_title()\<close>, \<open>get_artists()\<close>, \<open>get_rating()\<close>, \<open>get_views()\<close>,
  \<open>get_time()\<close> and \<open>get_file()\<close>.
\<close>

record dvk =
  get_id :: string
  get_title :: string
  get_artists :: "string list"
  get_rating :: int
  get_views :: int
  get_time :: string
  get_file :: path

text \<open>
  Modelled from the spec: \<open>Dvk()\<close>, the sentinel "empty" record that the accessors return for
  an index out of range. Only its identity matters below; the time is the spec's sentinel for
  "unknown".
\<close>

definition Dvk :: dvk where
  "Dvk = \<lparr>get_id = [], get_title = [], get_artists = [], get_rating = 0, get_views = 0,
          get_time = ''0000/00/00|00:00'', get_file = []\<rparr>"

text \<open>
  The functions that \<open>dvk_handler.py\<close> imports from modules of the repository that are not
  part of the sources (\<open>processing/string_compare.py\<close>, \<open>processing/list_processing.py\<close>,
  \<open>file/dvk_directory.py\<close>) are parameters of the model.
\<close>

record helpers =
  compare_alphanum :: "string \<Rightarrow> string \<Rightarrow> int"
  compare_strings :: "string \<Rightarrow> string \<Rightarrow> int"
  list_to_string :: "string list \<Rightarrow> string"
  clean_list :: "path list \<Rightarrow> path list"
  read_dvks :: "path \<Rightarrow> dvk list"

datatype error = IndexError | FileNotFoundError | NotADirectoryError

text \<open>
  The attributes of a \<open>DvkHandler\<close>. \<open>sorted_ix\<close> is the attribute \<open>sorted\<close>.
  \<open>group_artists\<close> is created by \<open>sort_dvks\<close>, the only caller of the comparators; before
  the first sort it is not read, and the model holds \<open>False\<close> there.
\<close>

record dvk_handler =
  dvks :: "dvk list"
  sorted_ix :: "int list"
  paths :: "path list"
  group_artists :: bool

definition DvkHandler :: dvk_handler where
  "DvkHandler = \<lparr>dvks = [], sorted_ix = [], paths = [], group_artists = False\<rparr>"

section \<open>Index access\<close>

text \<open>\<open>for i in range(0, size): self.sorted.append(i)\<close>\<close>

fun reset_loop :: "nat list \<Rightarrow> int list \<Rightarrow> int list" where
  "reset_loop [] s = s"
| "reset_loop (i # r) s = reset_loop r (s @ [int i])"

definition reset_sorted :: "dvk_handler \<Rightarrow> dvk_handler" where
  "reset_sorted self = self\<lparr>sorted_ix := reset_loop [0..<length (dvks self)] []\<rparr>"

definition get_size :: "dvk_handler \<Rightarrow> int" where
  "get_size self = int (length (sorted_ix self))"

text \<open>
  \<open>self.dvks[index_int]\<close> with a non-negative index raises \<open>IndexError\<close> when the index is
  not below \<open>len(self.dvks)\<close>; the guard compares with \<open>get_size()\<close>, the length of \<open>sorted\<close>.
\<close>

definition get_dvk_direct :: "dvk_handler \<Rightarrow> int \<Rightarrow> error + dvk" where
  "get_dvk_direct self index_int =
     (if index_int > -1 \<and> index_int < get_size self
      then (if nat index_int < length (dvks self)
            then Inr (dvks self ! nat index_int) else Inl IndexError)
      else Inr Dvk)"

definition get_dvk_sorted :: "dvk_handler \<Rightarrow> int \<Rightarrow> error + dvk" where
  "get_dvk_sorted self index_int =
     (if index_int > -1 \<and> index_int < get_size self
      then get_dvk_direct self (sorted_ix self ! nat index_int)
      else Inr Dvk)"

section \<open>Comparators\<close>

definition compare_artists :: "helpers \<Rightarrow> dvk \<Rightarrow> dvk \<Rightarrow> int" where
  "compare_artists I x y =
     (let x_artists = list_to_string I (get_artists x);
          y_artists = list_to_string I (get_artists y)
      in compare_alphanum I x_artists y_artists)"

definition compare_alpha :: "helpers \<Rightarrow> dvk_handler \<Rightarrow> dvk option \<Rightarrow> dvk option \<Rightarrow> int" where
  "compare_alpha I self xo yo =
     (case (xo, yo) of
        (Some x, Some y) \<Rightarrow>
          (let result = 0;
               result = (if group_artists self then compare_artists I x y else result);
               result = (if result = 0 then compare_alphanum I (get_title x) (get_title y)
                         else result)
           in if result = 0 then compare_strings I (get_time x) (get_time y) else result)
      | _ \<Rightarrow> 0)"

definition compare_time :: "helpers \<Rightarrow> dvk_handler \<Rightarrow> dvk option \<Rightarrow> dvk option \<Rightarrow> int" where
  "compare_time I self xo yo =
     (case (xo, yo) of
        (Some x, Some y) \<Rightarrow>
          (let result = 0;
               result = (if group_artists self then compare_artists I x y else result);
               result = (if result = 0 then compare_strings I (get_time x) (get_time y)
                         else result)
           in if result = 0 then compare_alphanum I (get_title x) (get_title y) else result)
      | _ \<Rightarrow> 0)"

definition compare_ratings :: "helpers \<Rightarrow> dvk_handler \<Rightarrow> dvk option \<Rightarrow> dvk option \<Rightarrow> int" where
  "compare_ratings I self xo yo =
     (case (xo, yo) of
        (Some x, Some y) \<Rightarrow>
          (let result = 0;
               result = (if group_artists self then compare_artists I x y else result)
           in if result = 0
              then (if get_rating x < get_rating y then -1
                    else if get_rating x > get_rating y then 1
                    else compare_alpha I self (Some x) (Some y))
              else result)
      | _ \<Rightarrow> 0)"

definition compare_views :: "helpers \<Rightarrow> dvk_handler \<Rightarrow> dvk option \<Rightarrow> dvk option \<Rightarrow> int" where
  "compare_views I self xo yo =
     (case (xo, yo) of
        (Some x, Some y) \<Rightarrow>
          (let result = 0;
               result = (if group_artists self then compare_artists I x y else result)
           in if result = 0
              then (if get_views x < get_views y then -1
                    else if get_views x > get_views y then 1
                    else compare_alpha I self (Some x) (Some y))
              else result)
      | _ \<Rightarrow> 0)"

section \<open>Sorting\<close>

text \<open>
  Python's built-in \<open>sorted\<close> is a stable sort that compares with \<open><\<close> only. Whenever \<open><\<close>
  is a strict weak order on the elements every stable sort returns the same list; the model
  is insertion sort from the right, which puts an element before the first element that is not
  smaller, that is in front of its equals that came after it.
\<close>

fun insort_lt :: "('a \<Rightarrow> 'a \<Rightarrow> bool) \<Rightarrow> 'a \<Rightarrow> 'a list \<Rightarrow> 'a list" where
  "insort_lt lt x [] = [x]"
| "insort_lt lt x (y # ys) = (if lt y x then y # insort_lt lt x ys else x # y # ys)"

definition py_sorted :: "('a \<Rightarrow> 'a \<Rightarrow> bool) \<Rightarrow> 'a list \<Rightarrow> 'a list" where
  "py_sorted lt xs = foldr (insort_lt lt) xs []"

text \<open>\<open>cmp_to_key(mycmp)\<close>: the key objects compare by \<open>mycmp(a, b) < 0\<close>.\<close>

definition cmp_to_key :: "('a option \<Rightarrow> 'a option \<Rightarrow> int) \<Rightarrow> 'a \<Rightarrow> 'a \<Rightarrow> bool" where
  "cmp_to_key mycmp a b = (mycmp (Some a) (Some b) < 0)"

definition sort_dvks :: "helpers \<Rightarrow> string option \<Rightarrow> bool \<Rightarrow> dvk_handler \<Rightarrow> dvk_handler" where
  "sort_dvks I sort_type group_artists_bool self0 =
     (let self = self0\<lparr>group_artists := group_artists_bool\<rparr>
      in case sort_type of
           None \<Rightarrow> self
         | Some t \<Rightarrow>
             if get_size self > 0
             then (let comparator =
                         (if t = ''t'' then cmp_to_key (compare_time I self)
                          else if t = ''r'' then cmp_to_key (compare_ratings I self)
                          else if t = ''v'' then cmp_to_key (compare_views I self)
                          else cmp_to_key (compare_alpha I self))
                   in self\<lparr>dvks := py_sorted comparator (dvks self)\<rparr>)
             else self)"

section \<open>The file system\<close>

text \<open>
  The directory tree that \<open>os.walk\<close> and \<open>os.listdir\<close> read, on a POSIX system: a
  directory lists its entries by name, in the order \<open>scandir\<close> reports them, and an entry is
  a regular file, a directory or a symbolic link with its target string. \<open>cwd\<close> is the
  working directory that \<open>Path.absolute()\<close> prefixes to a relative path.
\<close>

datatype node = File | Dir "(string \<times> node) list" | Link string

record filesystem =
  root :: node
  cwd :: path

text \<open>The names that an entry of a directory can have.\<close>

definition valid_name :: "string \<Rightarrow> bool" where
  "valid_name n = (n \<noteq> [] \<and> n \<noteq> ''.'' \<and> n \<noteq> ''..'' \<and> CHR ''/'' \<notin> set n)"

text \<open>
  The node that a list of entry names leads to, from a node downwards, no link followed.
\<close>

primrec descend :: "node \<Rightarrow> path \<Rightarrow> node option" where
  "descend nd [] = Some nd"
| "descend nd (n # p) =
     (case nd of
        Dir es \<Rightarrow> (case map_of es n of None \<Rightarrow> None | Some c \<Rightarrow> descend c p)
      | _ \<Rightarrow> None)"

text \<open>
  The components of a path string, as \<open>pathlib\<close> and the system read them: the string is
  split at \<open>/\<close>, empty components and \<open>.\<close> are dropped, \<open>..\<close> is kept.
\<close>

fun split_sep :: "string \<Rightarrow> string list" where
  "split_sep [] = [[]]"
| "split_sep (c # cs) =
     (if c = CHR ''/'' then [] # split_sep cs
      else (case split_sep cs of [] \<Rightarrow> [[c]] | r # rs \<Rightarrow> (c # r) # rs))"

definition parts :: "string \<Rightarrow> path" where
  "parts d = filter (\<lambda>c. c \<noteq> [] \<and> c \<noteq> ''.'') (split_sep d)"

text \<open>
  The resolution of a path by the system, component by component, from the directory \<open>cur\<close>
  (the names from the root to it). The component \<open>..\<close> is the parent directory, the root
  being its own parent. Every component is looked up in a directory: a name that is missing,
  and any component after a file, fail. A symbolic link is replaced by the components of its
  target, read from the root when the target is absolute and from the directory of the link
  otherwise; \<open>links\<close> counts the links that may still be followed, and the resolution fails
  when none is left (\<open>ELOOP\<close>).
\<close>

fun resolve :: "node \<Rightarrow> nat \<Rightarrow> path \<Rightarrow> path \<Rightarrow> path option" where
  "resolve r links cur [] = Some cur"
| "resolve r links cur (n # p) =
     (case descend r cur of
        Some (Dir es) \<Rightarrow>
          if n = ''..'' then resolve r links (butlast cur) p
          else (case map_of es n of
                  None \<Rightarrow> None
                | Some (Link target) \<Rightarrow>
                    if links = 0 then None
                    else resolve r (links - 1)
                           (case target of
                              [] \<Rightarrow> cur
                            | c # _ \<Rightarrow> if c = CHR ''/'' then [] else cur)
                           (parts target @ p)
                | Some _ \<Rightarrow> resolve r links (cur @ [n]) p)
      | _ \<Rightarrow> None)"

text \<open>
  The node that a path names. The system follows at most 40 links in one resolution.
\<close>

definition lookup :: "node \<Rightarrow> path \<Rightarrow> node option" where
  "lookup r p = (case resolve r 40 [] p of None \<Rightarrow> None | Some q \<Rightarrow> descend r q)"


definition Path_absolute :: "filesystem \<Rightarrow> string \<Rightarrow> path" where
  "Path_absolute fs d =
     (case d of
        [] \<Rightarrow> cwd fs
      | c # _ \<Rightarrow> if c = CHR ''/'' then parts d else cwd fs @ parts d)"

text \<open>
  \<open>os.walk(top)\<close>, top-down: the directory itself, then the walk of each of its
  sub-directories; of each triple only the directory path \<open>p[0]\<close> is read. A directory that
  does not exist or is not a directory yields nothing, and with \<open>followlinks\<close> at its default
  an entry that is a link is not walked.
\<close>

fun walk_node :: "path \<Rightarrow> node \<Rightarrow> path list" where
  "walk_node p File = []"
| "walk_node p (Link target) = []"
| "walk_node p (Dir es) = p # concat (map (\<lambda>e. walk_node (p @ [fst e]) (snd e)) es)"

definition walk :: "filesystem \<Rightarrow> path \<Rightarrow> path list" where
  "walk fs dir = (case lookup (root fs) dir of None \<Rightarrow> [] | Some nd \<Rightarrow> walk_node dir nd)"

definition listdir :: "filesystem \<Rightarrow> path \<Rightarrow> error + string list" where
  "listdir fs p =
     (case lookup (root fs) p of
        None \<Rightarrow> Inl FileNotFoundError
      | Some (Dir es) \<Rightarrow> Inr (map fst es)
      | Some _ \<Rightarrow> Inl NotADirectoryError)"

definition endswith :: "string \<Rightarrow> string \<Rightarrow> bool" where
  "endswith s suffix =
     (length suffix \<le> length s \<and> drop (length s - length suffix) s = suffix)"

section \<open>Directory scan and load\<close>

text \<open>\<open>for file in listdir(...): if str(file).endswith(".dvk"): add = True; break\<close>\<close>

fun add_loop :: "string list \<Rightarrow> bool" where
  "add_loop [] = False"
| "add_loop (file # r) = (if endswith file ''.dvk'' then True else add_loop r)"

fun walk_loop :: "filesystem \<Rightarrow> path list \<Rightarrow> path list \<Rightarrow> error + path list" where
  "walk_loop fs [] pths = Inr pths"
| "walk_loop fs (p # r) pths =
     (case listdir fs p of
        Inl e \<Rightarrow> Inl e
      | Inr files \<Rightarrow> walk_loop fs r (if add_loop files then pths @ [p] else pths))"

fun directories_loop ::
  "filesystem \<Rightarrow> string option list \<Rightarrow> path list \<Rightarrow> error + path list" where
  "directories_loop fs [] pths = Inr pths"
| "directories_loop fs (d # r) pths =
     (case d of
        None \<Rightarrow> directories_loop fs r pths
      | Some s \<Rightarrow>
          if s = [] then directories_loop fs r pths
          else (case walk_loop fs (walk fs (Path_absolute fs s)) pths of
                  Inl e \<Rightarrow> Inl e
                | Inr pths' \<Rightarrow> directories_loop fs r pths'))"

definition get_directories ::
  "helpers \<Rightarrow> filesystem \<Rightarrow> string option list option \<Rightarrow> error + path list" where
  "get_directories I fs directory_strs =
     (case directory_strs of
        None \<Rightarrow> Inr []
      | Some ds \<Rightarrow>
          (case directories_loop fs ds [] of
             Inl e \<Rightarrow> Inl e
           | Inr pths \<Rightarrow> Inr (py_sorted (<) (clean_list I pths))))"

fun load_loop :: "helpers \<Rightarrow> path list \<Rightarrow> dvk_handler \<Rightarrow> dvk_handler" where
  "load_loop I [] self = self"
| "load_loop I (p # r) self = load_loop I r (self\<lparr>dvks := dvks self @ read_dvks I p\<rparr>)"

definition load_dvks ::
  "helpers \<Rightarrow> filesystem \<Rightarrow> string option list option \<Rightarrow> dvk_handler \<Rightarrow> error + dvk_handler"
  where
  "load_dvks I fs directory_strs self0 =
     (let self = self0\<lparr>dvks := []\<rparr>
      in case get_directories I fs directory_strs of
           Inl e \<Rightarrow> Inl e
         | Inr ps \<Rightarrow>
             (let self = self\<lparr>paths := ps\<rparr>;
                  self = load_loop I (paths self) self
              in Inr (reset_sorted self)))"

section \<open>Duplicate ids\<close>

fun ids_loop :: "dvk_handler \<Rightarrow> nat list \<Rightarrow> string list \<Rightarrow> error + string list" where
  "ids_loop handler [] ids = Inr ids"
| "ids_loop handler (i # r) ids =
     (case get_dvk_sorted handler (int i) of
        Inl e \<Rightarrow> Inl e
      | Inr d \<Rightarrow> ids_loop handler r (ids @ [get_id d]))"

text \<open>
  The inner loop \<open>for k in range(i + 1, size)\<close>; \<open>ids\<close> has \<open>size\<close> elements, so \<open>ids[i]\<close>
  and \<open>ids[k]\<close> are in range.
\<close>

fun inner_loop :: "string list \<Rightarrow> nat \<Rightarrow> nat list \<Rightarrow> nat list \<Rightarrow> nat list" where
  "inner_loop ids i [] s_ids = s_ids"
| "inner_loop ids i (k # r) s_ids =
     (if ids ! i = ids ! k
      then (let s_ids = (if i \<notin> set s_ids then s_ids @ [i] else s_ids)
            in inner_loop ids i r (s_ids @ [k]))
      else inner_loop ids i r s_ids)"

fun outer_loop :: "string list \<Rightarrow> nat \<Rightarrow> nat list \<Rightarrow> nat list \<Rightarrow> nat list" where
  "outer_loop ids sz [] s_ids = s_ids"
| "outer_loop ids sz (i # r) s_ids =
     (if i \<notin> set s_ids
      then outer_loop ids sz r (inner_loop ids i [i + 1..<sz] s_ids)
      else outer_loop ids sz r s_ids)"

fun files_loop :: "dvk_handler \<Rightarrow> nat list \<Rightarrow> path list \<Rightarrow> error + path list" where
  "files_loop handler [] identicals = Inr identicals"
| "files_loop handler (i # r) identicals =
     (case get_dvk_sorted handler (int i) of
        Inl e \<Rightarrow> Inl e
      | Inr d \<Rightarrow> files_loop handler r (identicals @ [get_file d]))"

text \<open>
  \<open>same_ids\<close> returns the list of paths; the handler it sorted is returned with it, since a
  handler passed by the caller is the caller's object.
\<close>

definition same_ids ::
  "helpers \<Rightarrow> filesystem \<Rightarrow> string option list option \<Rightarrow> dvk_handler option
     \<Rightarrow> error + (path list \<times> dvk_handler)" where
  "same_ids I fs dvk_directories dvk_handler =
     (case (case dvk_handler of
              Some h \<Rightarrow> Inr h
            | None \<Rightarrow> load_dvks I fs dvk_directories DvkHandler) of
        Inl e \<Rightarrow> Inl e
      | Inr handler0 \<Rightarrow>
          (let handler = sort_dvks I (Some ''a'') True handler0;
               sz = nat (get_size handler)
           in case ids_loop handler [0..<sz] [] of
                Inl e \<Rightarrow> Inl e
              | Inr ids \<Rightarrow>
                  (let s_ids = outer_loop ids sz [0..<sz] []
                   in case files_loop handler s_ids [] of
                        Inl e \<Rightarrow> Inl e
                      | Inr identicals \<Rightarrow> Inr (identicals, handler))))"

section \<open>The imported helpers, from the specification\<close>

text \<open>
  Modelled from the spec: \<open>compare_strings\<close> of \<open>processing/string_compare.py\<close>, which is not
  part of the sources: the lexical comparison of two strings, negative, zero or positive.
\<close>

definition spec_compare_strings :: "string \<Rightarrow> string \<Rightarrow> int" where
  "spec_compare_strings s t = (if s < t then -1 else if t < s then 1 else 0)"

text \<open>
  Modelled from the spec: \<open>compare_alphanum\<close> of \<open>processing/string_compare.py\<close>, which is not
  part of the sources. "Split each string into alternating runs of digits and non-digits;
  compare run-by-run, digit runs numerically (ignoring leading zeros for value but using run
  boundaries to decide run type), non-digit runs case-insensitively lexically; shorter string
  is less if it is a strict prefix run-wise." A digit run against a non-digit run, on which
  the specification is silent, is compared as text. Letters are the ASCII letters.
\<close>

definition is_digit :: "char \<Rightarrow> bool" where
  "is_digit c = (CHR ''0'' \<le> c \<and> c \<le> CHR ''9'')"

definition lower :: "char \<Rightarrow> char" where
  "lower c = (if CHR ''A'' \<le> c \<and> c \<le> CHR ''Z'' then char_of (of_char c + (32::nat)) else c)"

fun split_runs :: "string \<Rightarrow> string list" where
  "split_runs [] = []"
| "split_runs (c # cs) =
     (case split_runs cs of
        [] \<Rightarrow> [[c]]
      | [] # rs \<Rightarrow> [c] # rs
      | (d # r) # rs \<Rightarrow> if is_digit d = is_digit c then (c # d # r) # rs else [c] # (d # r) # rs)"

definition run_value :: "string \<Rightarrow> nat" where
  "run_value r = foldl (\<lambda>n c. 10 * n + (of_char c - 48)) 0 r"

definition compare_run :: "string \<Rightarrow> string \<Rightarrow> int" where
  "compare_run r q =
     (if list_all is_digit r \<and> list_all is_digit q
      then (if run_value r < run_value q then -1 else if run_value q < run_value r then 1 else 0)
      else spec_compare_strings (map lower r) (map lower q))"

fun compare_runs :: "string list \<Rightarrow> string list \<Rightarrow> int" where
  "compare_runs [] [] = 0"
| "compare_runs [] (q # qs) = -1"
| "compare_runs (r # rs) [] = 1"
| "compare_runs (r # rs) (q # qs) =
     (if compare_run r q \<noteq> 0 then compare_run r q else compare_runs rs qs)"

definition spec_compare_alphanum :: "string \<Rightarrow> string \<Rightarrow> int" where
  "spec_compare_alphanum s t = compare_runs (split_runs s) (split_runs t)"

text \<open>
  Modelled from the spec: \<open>list_to_string\<close> of \<open>processing/list_processing.py\<close>, which is not
  part of the sources: the elements "joined into a single string". The separator is a comma.
\<close>

fun spec_list_to_string :: "string list \<Rightarrow> string" where
  "spec_list_to_string [] = []"
| "spec_list_to_string [a] = a"
| "spec_list_to_string (a # b # r) = a @ '','' @ spec_list_to_string (b # r)"

text \<open>
  Modelled from the spec: \<open>clean_list\<close> of \<open>processing/list_processing.py\<close>, which is not part
  of the sources: the list "deduplicated", each element kept where it first occurs.
\<close>

fun clean_loop :: "'a list \<Rightarrow> 'a list \<Rightarrow> 'a list" where
  "clean_loop [] out = out"
| "clean_loop (x # r) out = clean_loop r (if x \<in> set out then out else out @ [x])"

definition spec_clean_list :: "'a list \<Rightarrow> 'a list" where
  "spec_clean_list lst = clean_loop lst []"

text \<open>The helpers of the specification, around a loader \<open>rd\<close> of record files.\<close>

definition spec_helpers :: "(path \<Rightarrow> dvk list) \<Rightarrow> helpers" where
  "spec_helpers rd =
     \<lparr>compare_alphanum = spec_compare_alphanum, compare_strings = spec_compare_strings,
      list_to_string = spec_list_to_string, clean_list = spec_clean_list, read_dvks = rd\<rparr>"

section \<open>Properties\<close>

text \<open>
  The invariant of the data model: \<open>sorted\<close> has the length of \<open>dvks\<close> and its values are a
  permutation of \<open>0..n-1\<close>.
\<close>

definition handler_inv :: "dvk_handler \<Rightarrow> bool" where
  "handler_inv h =
     (length (sorted_ix h) = length (dvks h) \<and>
      mset (sorted_ix h) = mset (map int [0..<length (dvks h)]))"

text \<open>
  A three-way comparator is consistent on a set of records when swapping the arguments
  swaps the sign and "not greater" is transitive: then it is a total preorder there.
\<close>

definition consistent_on :: "'a set \<Rightarrow> ('a option \<Rightarrow> 'a option \<Rightarrow> int) \<Rightarrow> bool" where
  "consistent_on A cmp =
     ((\<forall>x\<in>A. \<forall>y\<in>A. (cmp (Some x) (Some y) < 0) = (0 < cmp (Some y) (Some x))) \<and>
      (\<forall>x\<in>A. \<forall>y\<in>A. \<forall>z\<in>A.
         cmp (Some x) (Some y) \<le> 0 \<and> cmp (Some y) (Some z) \<le> 0 \<longrightarrow> cmp (Some x) (Some z) \<le> 0))"

definition sorted_under :: "('a option \<Rightarrow> 'a option \<Rightarrow> int) \<Rightarrow> 'a list \<Rightarrow> bool" where
  "sorted_under cmp xs = sorted_wrt (\<lambda>a b. cmp (Some a) (Some b) \<le> 0) xs"

text \<open>
  The comparator that the specification assigns to a mode: time, rating, views, and the
  alphabetic one for every other value.
\<close>

definition mode_comparator ::
  "helpers \<Rightarrow> dvk_handler \<Rightarrow> string \<Rightarrow> dvk option \<Rightarrow> dvk option \<Rightarrow> int" where
  "mode_comparator I h t =
     (if t = ''t'' then compare_time I h
      else if t = ''r'' then compare_ratings I h
      else if t = ''v'' then compare_views I h
      else compare_alpha I h)"

text \<open>
  The record at a position of the sorted index, and the ids in the order of the sorted index.
\<close>

definition dvk_at :: "dvk_handler \<Rightarrow> nat \<Rightarrow> dvk" where
  "dvk_at h i = dvks h ! nat (sorted_ix h ! i)"

definition sorted_ids :: "dvk_handler \<Rightarrow> string list" where
  "sorted_ids h = map (\<lambda>i. get_id (dvk_at h i)) [0..<length (sorted_ix h)]"

text \<open>
  The emitted order of the specification. A cluster is the list of all positions that hold
  one id, in ascending position; it is emitted at its first member, when it has at least two
  members. The clusters follow each other in ascending position of their first member.
\<close>

definition cluster :: "'a list \<Rightarrow> nat \<Rightarrow> nat list" where
  "cluster ids i =
     (if ids ! i \<in> set (take i ids) then []
      else (let c = filter (\<lambda>k. ids ! k = ids ! i) [0..<length ids]
            in if length c < 2 then [] else c))"

definition dup_order :: "'a list \<Rightarrow> nat list" where
  "dup_order ids = concat (map (cluster ids) [0..<length ids])"

definition colliding :: "'a list \<Rightarrow> nat \<Rightarrow> bool" where
  "colliding ids p = (\<exists>q < length ids. q \<noteq> p \<and> ids ! q = ids ! p)"

text \<open>
  A directory tree is well formed when it holds no symbolic link and in every directory the
  names are distinct and are names that an entry can have.
\<close>

fun wf_node :: "node \<Rightarrow> bool" where
  "wf_node File = True"
| "wf_node (Link target) = False"
| "wf_node (Dir es) =
     (distinct (map fst es) \<and> list_all (\<lambda>e. valid_name (fst e) \<and> wf_node (snd e)) es)"




text \<open>
  The same consistency for a comparison of any values, on all of them, and the comparison by
  a first key and, on a tie, by a second one: the comparators of the handler are chains of
  comparisons of keys, and are consistent on every set of records when \<open>compare_alphanum\<close>
  and \<open>compare_strings\<close> are consistent.
\<close>

definition three_way :: "('a \<Rightarrow> 'a \<Rightarrow> int) \<Rightarrow> bool" where
  "three_way c =
     ((\<forall>a b. (c a b < 0) = (0 < c b a)) \<and>
      (\<forall>a b d. c a b \<le> 0 \<and> c b d \<le> 0 \<longrightarrow> c a d \<le> 0))"

definition chain :: "('a \<Rightarrow> 'a \<Rightarrow> int) \<Rightarrow> ('a \<Rightarrow> 'a \<Rightarrow> int) \<Rightarrow> 'a \<Rightarrow> 'a \<Rightarrow> int" where
  "chain k1 k2 x y = (if k1 x y \<noteq> 0 then k1 x y else k2 x y)"

text \<open>
  The order that the specification gives to the alphabetic mode with grouping, in its own
  words: the artist lists, joined into single strings, compared with \<open>compare_alphanum\<close>;
  on a tie the titles, compared with \<open>compare_alphanum\<close>; on a tie of both the times,
  compared with \<open>compare_strings\<close>.
\<close>

definition artist_grouped_le :: "helpers \<Rightarrow> dvk \<Rightarrow> dvk \<Rightarrow> bool" where
  "artist_grouped_le I x y =
     (let a = compare_alphanum I (list_to_string I (get_artists x))
                (list_to_string I (get_artists y));
          t = compare_alphanum I (get_title x) (get_title y);
          m = compare_strings I (get_time x) (get_time y)
      in a < 0 \<or> a = 0 \<and> (t < 0 \<or> t = 0 \<and> m \<le> 0))"

section \<open>The fixture of the repository's test\<close>

text \<open>
  The directory \<open>finding\<close> and the four record files that \<open>tests/error/test_same_ids.py\<close>
  writes: \<open>dvk1\<close>, \<open>dvk3\<close> and \<open>dvk4\<close> share the id \<open>id1\<close>.
\<close>

definition test_dvk :: "string \<Rightarrow> string \<Rightarrow> path \<Rightarrow> dvk" where
  "test_dvk i t f =
     \<lparr>get_id = i, get_title = t, get_artists = [''artist''], get_rating = 0, get_views = 0,
      get_time = ''0000/00/00|00:00'', get_file = f\<rparr>"

definition dvk1 :: dvk where
  "dvk1 = test_dvk ''id1'' ''title1'' [''home'', ''finding'', ''dvk1.dvk'']"

definition dvk2 :: dvk where
  "dvk2 = test_dvk ''id2'' ''title2'' [''home'', ''finding'', ''sub'', ''dvk2.dvk'']"

definition dvk3 :: dvk where
  "dvk3 = test_dvk ''id1'' ''title3'' [''home'', ''finding'', ''sub'', ''dvk3.dvk'']"

definition dvk4 :: dvk where
  "dvk4 = test_dvk ''id1'' ''title4'' [''home'', ''finding'', ''dvk4.dvk'']"

definition test_fs :: filesystem where
  "test_fs =
     \<lparr>root = Dir [(''home'', Dir [(''finding'', Dir
        [(''file0'', File),
         (''sub'', Dir [(''file2.png'', File), (''dvk2.dvk'', File), (''file1.txt'', File),
                        (''dvk3.dvk'', File)]),
         (''sub2'', Dir [(''noDVK.txt'', File)]),
         (''dvk4.dvk'', File), (''file1.txt'', File), (''fileSecond.no'', File),
         (''dvk1.dvk'', File)])])],
      cwd = [''home'']\<rparr>"

definition test_read :: "path \<Rightarrow> dvk list" where
  "test_read p =
     (if p = [''home'', ''finding''] then [dvk4, dvk1]
      else if p = [''home'', ''finding'', ''sub''] then [dvk2, dvk3]
      else [])"

definition test_helpers :: helpers where
  "test_helpers = spec_helpers test_read"

text \<open>The handler after \<open>load_dvks\<close> on the fixture.\<close>

definition test_handler :: dvk_handler where
  "test_handler =
     \<lparr>dvks = [dvk4, dvk1, dvk2, dvk3], sorted_ix = [0, 1, 2, 3],
      paths = [[''home'', ''finding''], [''home'', ''finding'', ''sub'']],
      group_artists = False\<rparr>"


text \<open>
  The two records of the specification's example of grouping: the title of Amy's record comes
  after the title of Zed's.
\<close>

definition dvk_zed :: dvk where
  "dvk_zed =
     (test_dvk ''z1'' ''A'' [''home'', ''zed.dvk''])\<lparr>get_artists := [''Zed''], get_rating := 3\<rparr>"

definition dvk_amy :: dvk where
  "dvk_amy =
     (test_dvk ''a1'' ''B'' [''home'', ''amy.dvk''])\<lparr>get_artists := [''amy''], get_rating := 1\<rparr>"

text \<open>
  A handler that holds the two records in the order of their titles, Zed's first, as
  \<open>load_dvks\<close> leaves it.
\<close>

definition pair_handler :: dvk_handler where
  "pair_handler =
     \<lparr>dvks = [dvk_zed, dvk_amy], sorted_ix = [0, 1], paths = [[''home'']],
      group_artists = False\<rparr>"

text \<open>A record with one artist, for the examples of the natural comparison.\<close>

definition dvk_item :: "string \<Rightarrow> dvk" where
  "dvk_item a = (test_dvk ''i'' ''T'' [''home'', ''i.dvk''])\<lparr>get_artists := [a]\<rparr>"

text \<open>
  A tree with symbolic links: \<open>alias\<close> and \<open>up\<close> both lead to the directory \<open>real\<close>.
\<close>

definition link_fs :: filesystem where
  "link_fs =
     \<lparr>root = Dir [(''home'', Dir
        [(''real'', Dir [(''x.dvk'', File)]),
         (''alias'', Link ''real''),
         (''up'', Link ''../home/./real/'')])],
      cwd = [''home'']\<rparr>"


section \<open>Lemmas on the index\<close>

lemma reset_loop_eq: "reset_loop xs s = s @ map int xs"
  by (induction xs arbitrary: s) simp_all

lemma sorted_ix_reset: "sorted_ix (reset_sorted h) = map int [0..<length (dvks h)]"
  by (simp add: reset_sorted_def reset_loop_eq)

lemma dvks_reset: "dvks (reset_sorted h) = dvks h"
  by (simp add: reset_sorted_def)

lemma handler_inv_reset: "handler_inv (reset_sorted h)"
  by (simp add: handler_inv_def sorted_ix_reset dvks_reset)

lemma inv_nth_range:
  assumes "handler_inv h" "i < length (sorted_ix h)"
  shows "0 \<le> sorted_ix h ! i \<and> sorted_ix h ! i < int (length (dvks h))"
proof -
  have "sorted_ix h ! i \<in> set (sorted_ix h)" using assms(2) by simp
  also have "set (sorted_ix h) = set (map int [0..<length (dvks h)])"
    using assms(1) unfolding handler_inv_def by (metis set_mset_mset)
  finally show ?thesis by auto
qed

lemma get_dvk_direct_in:
  assumes "handler_inv h" "0 \<le> i" "i < get_size h"
  shows "get_dvk_direct h i = Inr (dvks h ! nat i)"
  using assms by (simp add: get_dvk_direct_def get_size_def handler_inv_def)

lemma get_dvk_sorted_in:
  assumes "handler_inv h" "0 \<le> i" "i < get_size h"
  shows "get_dvk_sorted h i = Inr (dvks h ! nat (sorted_ix h ! nat i))"
proof -
  have r: "0 \<le> sorted_ix h ! nat i \<and> sorted_ix h ! nat i < int (length (dvks h))"
    using inv_nth_range[OF assms(1), of "nat i"] assms by (simp add: get_size_def)
  then have "get_dvk_direct h (sorted_ix h ! nat i) = Inr (dvks h ! nat (sorted_ix h ! nat i))"
    using assms(1) by (intro get_dvk_direct_in) (auto simp: get_size_def handler_inv_def)
  then show ?thesis using assms by (simp add: get_dvk_sorted_def)
qed

section \<open>Lemmas on sorting\<close>

lemma mset_insort_lt: "mset (insort_lt lt x ys) = add_mset x (mset ys)"
  by (induction ys) simp_all

lemma mset_py_sorted: "mset (py_sorted lt xs) = mset xs"
  by (induction xs) (simp_all add: py_sorted_def mset_insort_lt)

lemma set_py_sorted: "set (py_sorted lt xs) = set xs"
  by (metis mset_py_sorted set_mset_mset)

lemma length_py_sorted: "length (py_sorted lt xs) = length xs"
  by (metis mset_py_sorted size_mset)

lemma py_sorted_Cons: "py_sorted lt (x # xs) = insort_lt lt x (py_sorted lt xs)"
  by (simp add: py_sorted_def)

lemma set_insort_lt: "set (insort_lt lt x ys) = insert x (set ys)"
  by (metis mset_insort_lt set_mset_add_mset_insert set_mset_mset)

lemma consistent_flip:
  assumes "consistent_on A cmp" "x \<in> A" "y \<in> A"
  shows "(cmp (Some x) (Some y) < 0) = (0 < cmp (Some y) (Some x))"
  using assms unfolding consistent_on_def by blast

lemma consistent_trans:
  assumes "consistent_on A cmp" "x \<in> A" "y \<in> A" "z \<in> A"
    "cmp (Some x) (Some y) \<le> 0" "cmp (Some y) (Some z) \<le> 0"
  shows "cmp (Some x) (Some z) \<le> 0"
  using assms unfolding consistent_on_def by blast

lemma sorted_insort_lt:
  assumes c: "consistent_on A cmp" and x: "x \<in> A"
  shows "set ys \<subseteq> A \<Longrightarrow> sorted_under cmp ys \<Longrightarrow>
         sorted_under cmp (insort_lt (cmp_to_key cmp) x ys)"
proof (induction ys)
  case Nil
  then show ?case by (simp add: sorted_under_def)
next
  case (Cons y ys)
  then have y: "y \<in> A" and ys: "set ys \<subseteq> A" by auto
  have sy: "\<forall>z\<in>set ys. cmp (Some y) (Some z) \<le> 0" and s: "sorted_under cmp ys"
    using Cons.prems(2) by (auto simp: sorted_under_def)
  show ?case
  proof (cases "cmp (Some y) (Some x) < 0")
    case True
    have "sorted_under cmp (insort_lt (cmp_to_key cmp) x ys)"
      using Cons.IH ys s by blast
    moreover have "cmp_to_key cmp y x" using True by (simp add: cmp_to_key_def)
    ultimately show ?thesis using True sy
      by (auto simp: sorted_under_def set_insort_lt)
  next
    case False
    then have xy: "cmp (Some x) (Some y) \<le> 0"
      using consistent_flip[OF c y x] consistent_flip[OF c x y] by linarith
    have "\<forall>z\<in>set ys. cmp (Some x) (Some z) \<le> 0"
      using consistent_trans[OF c x y _ xy] sy ys by blast
    moreover have "\<not> cmp_to_key cmp y x" using False by (simp add: cmp_to_key_def)
    ultimately show ?thesis using xy Cons.prems(2)
      by (auto simp: sorted_under_def)
  qed
qed

lemma sorted_py_sorted:
  assumes c: "consistent_on A cmp"
  shows "set xs \<subseteq> A \<Longrightarrow> sorted_under cmp (py_sorted (cmp_to_key cmp) xs)"
proof (induction xs)
  case Nil
  then show ?case by (simp add: py_sorted_def sorted_under_def)
next
  case (Cons x xs)
  then show ?case
    using sorted_insort_lt[OF c, of x "py_sorted (cmp_to_key cmp) xs"]
    by (simp add: py_sorted_Cons set_py_sorted)
qed

lemma py_sorted_fixed:
  assumes c: "consistent_on A cmp"
  shows "set xs \<subseteq> A \<Longrightarrow> sorted_under cmp xs \<Longrightarrow> py_sorted (cmp_to_key cmp) xs = xs"
proof (induction xs)
  case Nil
  then show ?case by (simp add: py_sorted_def)
next
  case (Cons x xs)
  then have ih: "py_sorted (cmp_to_key cmp) xs = xs" by (simp add: sorted_under_def)
  show ?case
  proof (cases xs)
    case Nil
    then show ?thesis by (simp add: py_sorted_def)
  next
    case (Cons y ys)
    have "cmp (Some x) (Some y) \<le> 0" using Cons.prems(2) Cons by (simp add: sorted_under_def)
    then have "\<not> cmp (Some y) (Some x) < 0"
      using consistent_flip[OF c, of y x] consistent_flip[OF c, of x y] Cons.prems(1) Cons
      by auto
    then have "\<not> cmp_to_key cmp y x" by (simp add: cmp_to_key_def)
    then show ?thesis using ih Cons by (simp add: py_sorted_Cons)
  qed
qed

lemma compare_alpha_flag:
  "group_artists h = group_artists h' \<Longrightarrow> compare_alpha I h = compare_alpha I h'"
  by (intro ext) (simp add: compare_alpha_def split: option.splits)

lemma compare_time_flag:
  "group_artists h = group_artists h' \<Longrightarrow> compare_time I h = compare_time I h'"
  by (intro ext) (simp add: compare_time_def split: option.splits)

lemma compare_ratings_flag:
  assumes "group_artists h = group_artists h'"
  shows "compare_ratings I h = compare_ratings I h'"
proof (intro ext)
  fix x y
  show "compare_ratings I h x y = compare_ratings I h' x y"
    using assms compare_alpha_flag[OF assms, of I]
    by (simp add: compare_ratings_def Let_def split: option.splits)
qed

lemma compare_views_flag:
  assumes "group_artists h = group_artists h'"
  shows "compare_views I h = compare_views I h'"
proof (intro ext)
  fix x y
  show "compare_views I h x y = compare_views I h' x y"
    using assms compare_alpha_flag[OF assms, of I]
    by (simp add: compare_views_def Let_def split: option.splits)
qed

lemma mode_comparator_flag:
  "group_artists h = group_artists h' \<Longrightarrow> mode_comparator I h t = mode_comparator I h' t"
  by (simp add: mode_comparator_def compare_alpha_flag[of h h'] compare_time_flag[of h h']
      compare_ratings_flag[of h h'] compare_views_flag[of h h'])

lemma sort_dvks_Some:
  "sort_dvks I (Some t) g h =
     (if 0 < get_size h
      then h\<lparr>group_artists := g,
             dvks := py_sorted (cmp_to_key (mode_comparator I (h\<lparr>group_artists := g\<rparr>) t)) (dvks h)\<rparr>
      else h\<lparr>group_artists := g\<rparr>)"
  by (simp add: sort_dvks_def mode_comparator_def get_size_def Let_def)

lemma sort_dvks_None: "sort_dvks I None g h = h\<lparr>group_artists := g\<rparr>"
  by (simp add: sort_dvks_def)

lemma sort_dvks_frame:
  "sorted_ix (sort_dvks I m g h) = sorted_ix h \<and> paths (sort_dvks I m g h) = paths h \<and>
   group_artists (sort_dvks I m g h) = g \<and> get_size (sort_dvks I m g h) = get_size h \<and>
   mset (dvks (sort_dvks I m g h)) = mset (dvks h)"
  by (cases m) (simp_all add: sort_dvks_Some sort_dvks_None get_size_def mset_py_sorted)

lemma handler_inv_sort: "handler_inv h \<Longrightarrow> handler_inv (sort_dvks I m g h)"
  using sort_dvks_frame[of I m g h] unfolding handler_inv_def by (metis size_mset)

lemma sort_dvks_sorted:
  assumes inv: "handler_inv h"
    and c: "consistent_on (set (dvks h)) (mode_comparator I (sort_dvks I (Some t) g h) t)"
  shows "sorted_under (mode_comparator I (sort_dvks I (Some t) g h) t)
           (dvks (sort_dvks I (Some t) g h))"
proof -
  let ?h = "sort_dvks I (Some t) g h"
  have eq: "mode_comparator I ?h t = mode_comparator I (h\<lparr>group_artists := g\<rparr>) t"
    by (rule mode_comparator_flag) (simp add: sort_dvks_frame)
  show ?thesis
  proof (cases "0 < get_size h")
    case True
    then show ?thesis
      using sorted_py_sorted[OF c[unfolded eq], of "dvks h"] unfolding eq
      by (simp add: sort_dvks_Some)
  next
    case False
    then have "dvks h = []" using inv by (simp add: handler_inv_def get_size_def)
    then show ?thesis by (simp add: sort_dvks_Some False sorted_under_def)
  qed
qed

lemma sort_dvks_Some_gen:
  assumes "group_artists h' = g"
  shows "sort_dvks I (Some t) g h =
     (if 0 < get_size h
      then h\<lparr>group_artists := g,
             dvks := py_sorted (cmp_to_key (mode_comparator I h' t)) (dvks h)\<rparr>
      else h\<lparr>group_artists := g\<rparr>)"
proof -
  have "mode_comparator I (h\<lparr>group_artists := g\<rparr>) t = mode_comparator I h' t"
    by (rule mode_comparator_flag) (simp add: assms)
  then show ?thesis by (simp add: sort_dvks_Some)
qed

lemma sort_dvks_twice:
  assumes c: "\<And>t. m = Some t \<Longrightarrow>
                consistent_on (set (dvks h)) (mode_comparator I (sort_dvks I m g h) t)"
  shows "sort_dvks I m g (sort_dvks I m g h) = sort_dvks I m g h"
proof (cases m)
  case None
  then show ?thesis by (simp add: sort_dvks_None)
next
  case (Some t)
  let ?h = "sort_dvks I m g h"
  let ?c = "mode_comparator I ?h t"
  have g: "group_artists ?h = g" by (simp add: sort_dvks_frame)
  have c': "consistent_on (set (dvks h)) ?c" using c[OF Some] by simp
  have one: "?h = (if 0 < get_size h
      then h\<lparr>group_artists := g, dvks := py_sorted (cmp_to_key ?c) (dvks h)\<rparr>
      else h\<lparr>group_artists := g\<rparr>)"
    using sort_dvks_Some_gen[OF g, of I t h] Some by simp
  have two: "sort_dvks I m g ?h = (if 0 < get_size ?h
      then ?h\<lparr>group_artists := g, dvks := py_sorted (cmp_to_key ?c) (dvks ?h)\<rparr>
      else ?h\<lparr>group_artists := g\<rparr>)"
    using sort_dvks_Some_gen[OF g, of I t ?h] Some by simp
  have sz: "get_size ?h = get_size h" by (simp add: sort_dvks_frame)
  show ?thesis
  proof (cases "0 < get_size h")
    case True
    let ?s = "py_sorted (cmp_to_key ?c) (dvks h)"
    have d: "dvks ?h = ?s" using one True by (metis dvk_handler.simps(5) dvk_handler.select_convs(1) dvk_handler.surjective dvk_handler.update_convs(1))
    have "sorted_under ?c ?s" using sorted_py_sorted[OF c'] by simp
    then have fx: "py_sorted (cmp_to_key ?c) ?s = ?s"
      using py_sorted_fixed[OF c', of ?s] by (simp add: set_py_sorted)
    have "sort_dvks I m g ?h = ?h\<lparr>group_artists := g, dvks := ?s\<rparr>"
      using two sz True d fx by simp
    also have "\<dots> = ?h" using d g by simp
    finally show ?thesis .
  next
    case False
    then show ?thesis using two sz g by simp
  qed
qed

section \<open>Lemmas on the comparators\<close>

lemma three_way_flip: "three_way c \<Longrightarrow> (c a b < 0) = (0 < c b a)"
  unfolding three_way_def by blast

lemma three_way_trans: "three_way c \<Longrightarrow> c a b \<le> 0 \<Longrightarrow> c b d \<le> 0 \<Longrightarrow> c a d \<le> 0"
  unfolding three_way_def by blast

lemma three_way_zero: 
  assumes "three_way c" 
  shows "(c a b = 0) = (c b a = 0)"
  using three_way_flip[OF assms, of a b] three_way_flip[OF assms, of b a] by linarith

lemma three_way_strict_left:
  assumes t: "three_way c" and 1: "c a b < 0" and 2: "c b d \<le> 0"
  shows "c a d < 0"
proof (rule ccontr)
  assume "\<not> c a d < 0"
  moreover have "c a d \<le> 0" using three_way_trans[OF t, of a b d] 1 2 by simp
  ultimately have "c a d = 0" by simp
  then have "c d a \<le> 0" using three_way_zero[OF t, of a d] by simp
  then have "c b a \<le> 0" using three_way_trans[OF t 2] by blast
  then show False using three_way_flip[OF t, of a b] 1 by simp
qed

lemma three_way_strict_right:
  assumes t: "three_way c" and 1: "c a b \<le> 0" and 2: "c b d < 0"
  shows "c a d < 0"
proof (rule ccontr)
  assume "\<not> c a d < 0"
  moreover have "c a d \<le> 0" using three_way_trans[OF t, of a b d] 1 2 by simp
  ultimately have "c a d = 0" by simp
  then have "c d a \<le> 0" using three_way_zero[OF t, of a d] by simp
  then have "c d b \<le> 0" using three_way_trans[OF t _ 1] by blast
  then show False using three_way_flip[OF t, of b d] 2 by simp
qed

lemma three_way_chain:
  assumes k1: "three_way k1" and k2: "three_way k2"
  shows "three_way (chain k1 k2)"
  unfolding three_way_def
proof (intro conjI allI impI)
  fix a b
  show "(chain k1 k2 a b < 0) = (0 < chain k1 k2 b a)"
    using three_way_zero[OF k1, of a b] three_way_flip[OF k1, of a b] three_way_flip[OF k2, of a b]
    by (simp add: chain_def)
next
  fix a b d
  assume h: "chain k1 k2 a b \<le> 0 \<and> chain k1 k2 b d \<le> 0"
  then have ab: "k1 a b < 0 \<or> (k1 a b = 0 \<and> k2 a b \<le> 0)"
    and bd: "k1 b d < 0 \<or> (k1 b d = 0 \<and> k2 b d \<le> 0)"
    by (auto simp: chain_def split: if_splits)
  show "chain k1 k2 a d \<le> 0"
  proof (cases "k1 a b < 0")
    case True
    have "k1 b d \<le> 0" using bd by auto
    then have "k1 a d < 0" using three_way_strict_left[OF k1 True] by blast
    then show ?thesis by (simp add: chain_def)
  next
    case False
    then have ab0: "k1 a b = 0" "k2 a b \<le> 0" using ab by auto
    show ?thesis
    proof (cases "k1 b d < 0")
      case True
      have "k1 a d < 0" using three_way_strict_right[OF k1 _ True, of a] ab0(1) by simp
      then show ?thesis by (simp add: chain_def)
    next
      case False
      then have bd0: "k1 b d = 0" "k2 b d \<le> 0" using bd by auto
      have 1: "k1 a d \<le> 0" using three_way_trans[OF k1, of a b d] ab0(1) bd0(1) by simp
      have "k1 d b = 0" "k1 b a = 0"
        using three_way_zero[OF k1, of b d] three_way_zero[OF k1, of a b] ab0(1) bd0(1) by simp_all
      then have "k1 d a \<le> 0" using three_way_trans[OF k1, of d b a] by simp
      then have "k1 a d = 0" using 1 three_way_flip[OF k1, of a d] by simp
      moreover have "k2 a d \<le> 0" using three_way_trans[OF k2 ab0(2) bd0(2)] .
      ultimately show ?thesis by (simp add: chain_def)
    qed
  qed
qed

lemma three_way_proj: "three_way c \<Longrightarrow> three_way (\<lambda>x y. c (f x) (f y))"
  unfolding three_way_def by blast

lemma three_way_none: "three_way (\<lambda>x y. 0)"
  by (simp add: three_way_def)

lemma three_way_number:
  "three_way (\<lambda>x y. if f x < f y then - 1 else if f y < f x then 1 else (0::int))"
  for f :: "'a \<Rightarrow> int"
  unfolding three_way_def by (auto split: if_splits)

lemma compare_alpha_chain:
  "compare_alpha I h (Some x) (Some y) =
     chain (if group_artists h then compare_artists I else (\<lambda>x y. 0))
       (chain (\<lambda>x y. compare_alphanum I (get_title x) (get_title y))
              (\<lambda>x y. compare_strings I (get_time x) (get_time y))) x y"
  by (simp add: compare_alpha_def chain_def Let_def)

lemma compare_time_chain:
  "compare_time I h (Some x) (Some y) =
     chain (if group_artists h then compare_artists I else (\<lambda>x y. 0))
       (chain (\<lambda>x y. compare_strings I (get_time x) (get_time y))
              (\<lambda>x y. compare_alphanum I (get_title x) (get_title y))) x y"
  by (simp add: compare_time_def chain_def Let_def)

lemma compare_ratings_chain:
  "compare_ratings I h (Some x) (Some y) =
     chain (if group_artists h then compare_artists I else (\<lambda>x y. 0))
       (chain (\<lambda>x y. if get_rating x < get_rating y then - 1
                       else if get_rating y < get_rating x then 1 else 0)
              (\<lambda>x y. compare_alpha I h (Some x) (Some y))) x y"
  by (simp add: compare_ratings_def chain_def Let_def)

lemma compare_views_chain:
  "compare_views I h (Some x) (Some y) =
     chain (if group_artists h then compare_artists I else (\<lambda>x y. 0))
       (chain (\<lambda>x y. if get_views x < get_views y then - 1
                       else if get_views y < get_views x then 1 else 0)
              (\<lambda>x y. compare_alpha I h (Some x) (Some y))) x y"
  by (simp add: compare_views_def chain_def Let_def)

lemma three_way_artists:
  assumes "three_way (compare_alphanum I)"
  shows "three_way (if group_artists h then compare_artists I else (\<lambda>x y. 0))"
proof (cases "group_artists h")
  case True
  have "compare_artists I = (\<lambda>x y. compare_alphanum I (list_to_string I (get_artists x))
                                        (list_to_string I (get_artists y)))"
    by (intro ext) (simp add: compare_artists_def)
  then show ?thesis
    using True three_way_proj[OF assms, of "\<lambda>x. list_to_string I (get_artists x)"] by simp
next
  case False
  then show ?thesis by (simp add: three_way_none)
qed

lemma three_way_alpha:
  assumes a: "three_way (compare_alphanum I)" and s: "three_way (compare_strings I)"
  shows "three_way (\<lambda>x y. compare_alpha I h (Some x) (Some y))"
  unfolding compare_alpha_chain
  by (intro three_way_chain three_way_artists[OF a] three_way_proj[OF a] three_way_proj[OF s])

lemma three_way_time:
  assumes a: "three_way (compare_alphanum I)" and s: "three_way (compare_strings I)"
  shows "three_way (\<lambda>x y. compare_time I h (Some x) (Some y))"
  unfolding compare_time_chain
  by (intro three_way_chain three_way_artists[OF a] three_way_proj[OF a] three_way_proj[OF s])

lemma three_way_ratings:
  assumes a: "three_way (compare_alphanum I)" and s: "three_way (compare_strings I)"
  shows "three_way (\<lambda>x y. compare_ratings I h (Some x) (Some y))"
  unfolding compare_ratings_chain
  by (intro three_way_chain three_way_artists[OF a] three_way_number three_way_alpha[OF a s])

lemma three_way_views:
  assumes a: "three_way (compare_alphanum I)" and s: "three_way (compare_strings I)"
  shows "three_way (\<lambda>x y. compare_views I h (Some x) (Some y))"
  unfolding compare_views_chain
  by (intro three_way_chain three_way_artists[OF a] three_way_number three_way_alpha[OF a s])

lemma three_way_consistent:
  "three_way (\<lambda>x y. cmp (Some x) (Some y)) \<Longrightarrow> consistent_on A cmp"
  unfolding three_way_def consistent_on_def by blast

lemma mode_comparator_consistent:
  assumes a: "three_way (compare_alphanum I)" and s: "three_way (compare_strings I)"
  shows "consistent_on A (mode_comparator I h t)"
  unfolding mode_comparator_def
  using three_way_alpha[OF a s, of h] three_way_time[OF a s, of h]
    three_way_ratings[OF a s, of h] three_way_views[OF a s, of h]
  by (simp add: three_way_consistent)

lemma grouped_alpha_le:
  "group_artists h \<Longrightarrow>
   (compare_alpha I h (Some x) (Some y) \<le> 0) = artist_grouped_le I x y"
  by (auto simp: compare_alpha_def compare_artists_def artist_grouped_le_def Let_def)

lemma sorted_grouped:
  assumes "group_artists h" and "sorted_under (compare_alpha I h) xs"
  shows "sorted_wrt (artist_grouped_le I) xs"
  using assms(2) unfolding sorted_under_def by (simp add: grouped_alpha_le[OF assms(1)])

section \<open>Lemmas on the helpers of the specification\<close>

lemma is_digit_nat: "is_digit c = (48 \<le> (of_char c :: nat) \<and> (of_char c :: nat) \<le> 57)"
  by (simp add: is_digit_def less_eq_char_def)

lemma lower_nat:
  "(of_char (lower c) :: nat) =
     (if 65 \<le> (of_char c :: nat) \<and> (of_char c :: nat) \<le> 90 then of_char c + 32 else of_char c)"
  by (simp add: lower_def less_eq_char_def)

lemma is_digit_lower: "is_digit (lower c) = is_digit c"
  by (simp add: is_digit_nat lower_nat)

lemma lower_digit: "is_digit c \<Longrightarrow> lower c = c"
  by (simp add: is_digit_nat lower_def less_eq_char_def)

lemma lower_lower: "lower (lower c) = lower c"
proof -
  have "(of_char (lower (lower c)) :: nat) = of_char (lower c)"
    by (simp add: lower_nat)
  then show ?thesis by (simp only: of_char_eq_iff)
qed

lemma lower_comma: "lower CHR '','' = CHR '',''"
  by (simp add: lower_def less_eq_char_def)

lemma split_runs_Nil_iff: "(split_runs s = []) = (s = [])"
  by (cases s) (simp_all split: list.splits)

lemma split_runs_no_empty: "[] \<notin> set (split_runs s)"
  by (induction s) (auto split: list.splits if_splits)

lemma concat_split_runs: "concat (split_runs s) = s"
  by (induction s) (auto split: list.splits if_splits)

lemma split_runs_lower: "split_runs (map lower s) = map (map lower) (split_runs s)"
  by (induction s) (auto simp: is_digit_lower split: list.splits)

lemma map_lower_digits: "list_all is_digit r \<Longrightarrow> map lower r = r"
  by (induction r) (simp_all add: lower_digit)

lemma digits_lower: "list_all is_digit (map lower r) = list_all is_digit r"
  by (induction r) (simp_all add: is_digit_lower)

lemma map_lower_idem: "map (lower \<circ> lower) r = map lower r"
  by (simp add: lower_lower)

lemma compare_run_lower:
  "compare_run (map lower r) q = compare_run r q" "compare_run r (map lower q) = compare_run r q"
  by (auto simp: compare_run_def digits_lower map_lower_digits map_lower_idem)

lemma compare_runs_lower_left: "compare_runs (map (map lower) rs) qs = compare_runs rs qs"
  by (induction rs qs rule: compare_runs.induct) (simp_all add: compare_run_lower)

lemma compare_runs_lower_right: "compare_runs rs (map (map lower) qs) = compare_runs rs qs"
  by (induction rs qs rule: compare_runs.induct) (simp_all add: compare_run_lower)

lemma alphanum_lower:
  "spec_compare_alphanum (map lower s) (map lower t) = spec_compare_alphanum s t"
  by (simp add: spec_compare_alphanum_def split_runs_lower compare_runs_lower_left
      compare_runs_lower_right)

lemma alphanum_case:
  assumes "map lower s = map lower s'" and "map lower t = map lower t'"
  shows "spec_compare_alphanum s t = spec_compare_alphanum s' t'"
  using alphanum_lower[of s t] alphanum_lower[of s' t'] assms by simp

lemma list_to_string_lower:
  "spec_list_to_string (map (map lower) xs) = map lower (spec_list_to_string xs)"
  by (induction xs rule: spec_list_to_string.induct) (simp_all add: lower_comma)

lemma split_runs_digits: "d \<noteq> [] \<Longrightarrow> list_all is_digit d \<Longrightarrow> split_runs d = [d]"
proof (induction d)
  case Nil
  then show ?case by simp
next
  case (Cons c d)
  show ?case
  proof (cases d)
    case Nil
    then show ?thesis by simp
  next
    case (Cons e d')
    then have "split_runs d = [d]" using Cons.IH Cons.prems by simp
    then show ?thesis using Cons Cons.prems by simp
  qed
qed

lemma split_runs_append_digits:
  assumes d: "d \<noteq> []" "list_all is_digit d"
  shows "p = [] \<or> \<not> is_digit (last p) \<Longrightarrow> split_runs (p @ d) = split_runs p @ [d]"
proof (induction p)
  case Nil
  then show ?case using split_runs_digits[OF d] by simp
next
  case (Cons c p)
  obtain e d' where e: "d = e # d'" using d(1) by (cases d) auto
  have ed: "is_digit e" using d(2) e by simp
  show ?case
  proof (cases p)
    case Nil
    then have "\<not> is_digit c" using Cons.prems by simp
    then show ?thesis using Nil split_runs_digits[OF d] e ed by auto
  next
    case (Cons c' p')
    then have ih: "split_runs (p @ d) = split_runs p @ [d]"
      using Cons.IH Cons.prems by simp
    have "p \<noteq> []" using Cons by simp
    then have "split_runs p \<noteq> []" by (simp only: split_runs_Nil_iff not_False_eq_True)
    then obtain r rs where r: "split_runs p = r # rs" by (cases "split_runs p") auto
    have "r \<noteq> []" using split_runs_no_empty[of p] r by auto
    then obtain a r' where a: "r = a # r'" by (cases r) auto
    show ?thesis using ih r a by simp
  qed
qed

lemma compare_run_refl: "compare_run r r = 0"
  by (simp add: compare_run_def spec_compare_strings_def)

lemma compare_runs_prefix: "compare_runs (rs @ as) (rs @ bs) = compare_runs as bs"
  by (induction rs) (simp_all add: compare_run_refl)

lemma alphanum_numeric:
  assumes "d \<noteq> []" "list_all is_digit d" "e \<noteq> []" "list_all is_digit e"
    and "p = [] \<or> \<not> is_digit (last p)"
  shows "spec_compare_alphanum (p @ d) (p @ e) =
           (if run_value d < run_value e then - 1 else if run_value e < run_value d then 1 else 0)"
  using assms
  by (simp add: spec_compare_alphanum_def split_runs_append_digits compare_runs_prefix
      compare_run_def)

lemma run_value_zero: "run_value (CHR ''0'' # d) = run_value d"
  by (simp add: run_value_def)

lemma compare_artists_spec:
  "compare_artists (spec_helpers rd) x y =
     spec_compare_alphanum (spec_list_to_string (get_artists x))
       (spec_list_to_string (get_artists y))"
  by (simp add: compare_artists_def spec_helpers_def)

lemma compare_artists_case:
  assumes "map (map lower) (get_artists x') = map (map lower) (get_artists x)"
    and "map (map lower) (get_artists y') = map (map lower) (get_artists y)"
  shows "compare_artists (spec_helpers rd) x' y' = compare_artists (spec_helpers rd) x y"
  unfolding compare_artists_spec
  by (rule alphanum_case) (simp_all only: list_to_string_lower[symmetric] assms)

lemma comparator_chain_any:
  "compare_time I h (Some x) (Some y) =
     (if group_artists h \<and> compare_artists I x y \<noteq> 0 then compare_artists I x y
      else if compare_strings I (get_time x) (get_time y) \<noteq> 0
           then compare_strings I (get_time x) (get_time y)
           else compare_alphanum I (get_title x) (get_title y))"
  "compare_ratings I h (Some x) (Some y) =
     (if group_artists h \<and> compare_artists I x y \<noteq> 0 then compare_artists I x y
      else if get_rating x < get_rating y then - 1
      else if get_rating y < get_rating x then 1
      else compare_alpha I h (Some x) (Some y))"
  "compare_views I h (Some x) (Some y) =
     (if group_artists h \<and> compare_artists I x y \<noteq> 0 then compare_artists I x y
      else if get_views x < get_views y then - 1
      else if get_views y < get_views x then 1
      else compare_alpha I h (Some x) (Some y))"
  "compare_alpha I h (Some x) (Some y) =
     (if group_artists h \<and> compare_artists I x y \<noteq> 0 then compare_artists I x y
      else if compare_alphanum I (get_title x) (get_title y) \<noteq> 0
           then compare_alphanum I (get_title x) (get_title y)
           else compare_strings I (get_time x) (get_time y))"
  by (simp_all add: compare_time_def compare_ratings_def compare_views_def
      compare_alpha_def Let_def)

section \<open>Lemmas on the duplicate scan\<close>

lemma inner_loop_marked:
  "i \<in> set s \<Longrightarrow> inner_loop ids i ks s = s @ filter (\<lambda>k. ids ! i = ids ! k) ks"
  by (induction ks arbitrary: s) simp_all

lemma inner_loop_eq:
  "i \<notin> set s \<Longrightarrow>
   inner_loop ids i ks s =
     (case filter (\<lambda>k. ids ! i = ids ! k) ks of [] \<Rightarrow> s | k # r \<Rightarrow> s @ i # k # r)"
proof (induction ks)
  case Nil
  then show ?case by simp
next
  case (Cons k ks)
  show ?case
  proof (cases "ids ! i = ids ! k")
    case True
    then show ?thesis using Cons.prems by (simp add: inner_loop_marked)
  next
    case False
    then show ?thesis using Cons by simp
  qed
qed

lemma outer_loop_snoc:
  "outer_loop ids n (js @ [i]) s =
     (let s' = outer_loop ids n js s
      in if i \<notin> set s' then inner_loop ids i [i + 1..<n] s' else s')"
  by (induction js arbitrary: s) simp_all

lemma filter_first:
  assumes "i < length ids" "ids ! i \<notin> set (take i ids)"
  shows "filter (\<lambda>k. ids ! k = ids ! i) [0..<length ids] =
           i # filter (\<lambda>k. ids ! k = ids ! i) [i + 1..<length ids]"
proof -
  have "\<forall>k<i. ids ! k \<noteq> ids ! i"
    using assms by (metis in_set_conv_nth length_take min.absorb2 less_imp_le_nat nth_take)
  then have a: "filter (\<lambda>k. ids ! k = ids ! i) [0..<i] = []" by (simp add: filter_empty_conv)
  have "[0..<length ids] = [0..<i] @ i # [i + 1..<length ids]"
    using assms(1) by (metis Suc_eq_plus1 le0 less_imp_le_nat upt_add_eq_append upt_conv_Cons le_add_diff_inverse plus_nat.add_0)
  then show ?thesis using a by simp
qed

lemma cluster_alt:
  assumes "i < length ids"
  shows "cluster ids i =
     (if ids ! i \<in> set (take i ids) then []
      else (case filter (\<lambda>k. ids ! i = ids ! k) [i + 1..<length ids] of
              [] \<Rightarrow> [] | k # r \<Rightarrow> i # k # r))"
proof (cases "ids ! i \<in> set (take i ids)")
  case True
  then show ?thesis by (simp add: cluster_def)
next
  case False
  have e: "(\<lambda>k. ids ! i = ids ! k) = (\<lambda>k. ids ! k = ids ! i)" by auto
  show ?thesis using False filter_first[OF assms False]
    by (simp add: cluster_def e Let_def split: list.splits)
qed


lemma in_take_iff: "i \<le> length ids \<Longrightarrow> x \<in> set (take i ids) \<longleftrightarrow> (\<exists>k<i. ids ! k = x)"
  by (auto simp: in_set_conv_nth)

lemma in_cluster_iff:
  assumes "i < length ids"
  shows "p \<in> set (cluster ids i) \<longleftrightarrow>
           (\<forall>k<i. ids ! k \<noteq> ids ! i) \<and> p < length ids \<and> ids ! p = ids ! i \<and>
           (\<exists>q<length ids. q \<noteq> i \<and> ids ! q = ids ! i)"
proof (cases "ids ! i \<in> set (take i ids)")
  case True
  then show ?thesis using assms by (auto simp: cluster_def in_take_iff)
next
  case False
  then have first: "\<forall>k<i. ids ! k \<noteq> ids ! i" using assms by (auto simp: in_take_iff)
  let ?c = "filter (\<lambda>k. ids ! k = ids ! i) [0..<length ids]"
  have mem: "\<And>p. p \<in> set ?c \<longleftrightarrow> p < length ids \<and> ids ! p = ids ! i" by auto
  have i: "i \<in> set ?c" using assms by simp
  have len: "length ?c < 2 \<longleftrightarrow> \<not> (\<exists>q<length ids. q \<noteq> i \<and> ids ! q = ids ! i)"
  proof
    assume l: "length ?c < 2"
    show "\<not> (\<exists>q<length ids. q \<noteq> i \<and> ids ! q = ids ! i)"
    proof
      assume "\<exists>q<length ids. q \<noteq> i \<and> ids ! q = ids ! i"
      then obtain q where q: "q < length ids" "q \<noteq> i" "ids ! q = ids ! i" by blast
      then have "{i, q} \<subseteq> set ?c" using i by simp
      then have "card {i, q} \<le> card (set ?c)" by (intro card_mono) auto
      then have "2 \<le> card (set ?c)" using q(2) by simp
      also have "\<dots> \<le> length ?c" by (rule card_length)
      finally show False using l by simp
    qed
  next
    assume n: "\<not> (\<exists>q<length ids. q \<noteq> i \<and> ids ! q = ids ! i)"
    then have "set ?c \<subseteq> {i}" by auto
    moreover have "distinct ?c" by simp
    ultimately have "length ?c \<le> card {i}"
      by (metis card_mono distinct_card finite.emptyI finite.insertI)
    then show "length ?c < 2" by simp
  qed
  show ?thesis
    using False first len mem[of p] by (auto simp: cluster_def Let_def)
qed

lemma in_dup_prefix_iff:
  assumes "j \<le> length ids"
  shows "p \<in> set (concat (map (cluster ids) [0..<j])) \<longleftrightarrow>
           (\<exists>i<j. p \<in> set (cluster ids i))"
  by auto

lemma first_occurrence:
  assumes "k < length ids"
  obtains i where "i \<le> k" "ids ! i = ids ! k" "\<forall>m<i. ids ! m \<noteq> ids ! i"
proof -
  define i where "i = (LEAST m. ids ! m = ids ! k)"
  have a: "ids ! i = ids ! k" unfolding i_def by (rule LeastI[of _ k]) simp
  have b: "i \<le> k" unfolding i_def by (rule Least_le) simp
  have c: "\<forall>m<i. ids ! m \<noteq> ids ! i"
  proof (intro allI impI)
    fix m
    assume "m < i"
    then have "ids ! m \<noteq> ids ! k"
      unfolding i_def by (rule not_less_Least)
    then show "ids ! m \<noteq> ids ! i" using a by simp
  qed
  show ?thesis using that a b c by blast
qed

lemma marked_before_iff:
  assumes "j < length ids"
  shows "j \<in> set (concat (map (cluster ids) [0..<j])) \<longleftrightarrow> ids ! j \<in> set (take j ids)"
proof
  assume "j \<in> set (concat (map (cluster ids) [0..<j]))"
  then obtain i where i: "i < j" "j \<in> set (cluster ids i)" by auto
  then have "ids ! j = ids ! i" using in_cluster_iff[of i ids j] assms by simp
  then show "ids ! j \<in> set (take j ids)" using i(1) assms by (auto simp: in_take_iff)
next
  assume "ids ! j \<in> set (take j ids)"
  then obtain k where k: "k < j" "ids ! k = ids ! j" using assms by (auto simp: in_take_iff)
  then have "k < length ids" using assms by simp
  from first_occurrence[OF this] obtain i where
    i: "i \<le> k" "ids ! i = ids ! k" "\<forall>m<i. ids ! m \<noteq> ids ! i" by blast
  have "j \<in> set (cluster ids i)"
    using in_cluster_iff[of i ids j] i k assms by auto
  moreover have "i < j" using i(1) k(1) by simp
  ultimately show "j \<in> set (concat (map (cluster ids) [0..<j]))" by auto
qed

lemma outer_loop_prefix:
  "j \<le> length ids \<Longrightarrow>
   outer_loop ids (length ids) [0..<j] [] = concat (map (cluster ids) [0..<j])"
proof (induction j)
  case 0
  then show ?case by simp
next
  case (Suc j)
  then have j: "j < length ids" by simp
  let ?s = "concat (map (cluster ids) [0..<j])"
  have ih: "outer_loop ids (length ids) [0..<j] [] = ?s" using Suc by simp
  show ?case
  proof (cases "j \<in> set ?s")
    case True
    then have "cluster ids j = []"
      using marked_before_iff[OF j] by (simp add: cluster_def)
    then show ?thesis using True ih by (simp add: outer_loop_snoc)
  next
    case False
    then have "ids ! j \<notin> set (take j ids)" using marked_before_iff[OF j] by simp
    then show ?thesis
      using False ih inner_loop_eq[OF False, of ids "[j + 1..<length ids]"] cluster_alt[OF j]
      by (simp add: outer_loop_snoc split: list.splits)
  qed
qed

lemma outer_loop_dup_order:
  "outer_loop ids (length ids) [0..<length ids] [] = dup_order ids"
  by (simp add: outer_loop_prefix dup_order_def)

lemma set_dup_order: "set (dup_order ids) = {p. p < length ids \<and> colliding ids p}"
proof (intro set_eqI iffI)
  fix p
  assume "p \<in> set (dup_order ids)"
  then obtain i where i: "i < length ids" "p \<in> set (cluster ids i)"
    by (auto simp: dup_order_def)
  have c: "p < length ids \<and> ids ! p = ids ! i \<and> (\<exists>q<length ids. q \<noteq> i \<and> ids ! q = ids ! i)"
    using in_cluster_iff[OF i(1), of p] i(2) by blast
  then obtain q where q: "q < length ids" "q \<noteq> i" "ids ! q = ids ! i" by blast
  have "colliding ids p"
  proof (cases "p = i")
    case True
    then show ?thesis unfolding colliding_def using q by blast
  next
    case False
    then show ?thesis unfolding colliding_def using i(1) c by metis
  qed
  then show "p \<in> {p. p < length ids \<and> colliding ids p}" using c by simp
next
  fix p
  assume "p \<in> {p. p < length ids \<and> colliding ids p}"
  then obtain q where p: "p < length ids" and q: "q < length ids" "q \<noteq> p" "ids ! q = ids ! p"
    unfolding colliding_def by blast
  from first_occurrence[OF p] obtain i where
    i: "i \<le> p" "ids ! i = ids ! p" "\<forall>m<i. ids ! m \<noteq> ids ! i" by blast
  have il: "i < length ids" using i(1) p by simp
  have "\<exists>r<length ids. r \<noteq> i \<and> ids ! r = ids ! i"
  proof (cases "p = i")
    case True
    then show ?thesis using q by blast
  next
    case False
    then show ?thesis using p i(2) by metis
  qed
  moreover have "ids ! p = ids ! i" using i(2) by simp
  ultimately have "p \<in> set (cluster ids i)"
    using in_cluster_iff[OF il, of p] i(3) p by simp
  then show "p \<in> set (dup_order ids)" using il by (auto simp: dup_order_def)
qed

lemma distinct_cluster: "distinct (cluster ids i)"
  by (simp add: cluster_def Let_def)

lemma distinct_dup_prefix:
  "j \<le> length ids \<Longrightarrow> distinct (concat (map (cluster ids) [0..<j]))"
proof (induction j)
  case 0
  then show ?case by simp
next
  case (Suc j)
  then have j: "j < length ids" by simp
  have "set (concat (map (cluster ids) [0..<j])) \<inter> set (cluster ids j) = {}"
  proof (rule ccontr)
    assume "set (concat (map (cluster ids) [0..<j])) \<inter> set (cluster ids j) \<noteq> {}"
    then obtain p i where i: "i < j" "p \<in> set (cluster ids i)" and pj: "p \<in> set (cluster ids j)"
      by auto
    have il: "i < length ids" using i(1) j by simp
    have "ids ! p = ids ! i" using in_cluster_iff[OF il, of p] i(2) by blast
    moreover have "ids ! p = ids ! j \<and> (\<forall>k<j. ids ! k \<noteq> ids ! j)"
      using in_cluster_iff[OF j, of p] pj by blast
    ultimately show False using i(1) by metis
  qed
  then show ?case using Suc by (simp add: distinct_cluster)
qed

lemma distinct_dup_order: "distinct (dup_order ids)"
  by (simp add: dup_order_def distinct_dup_prefix)

lemma dup_order_empty:
  assumes "distinct ids"
  shows "dup_order ids = []"
proof -
  have "\<not> colliding ids p" if "p < length ids" for p
    unfolding colliding_def using assms that by (metis nth_eq_iff_index_eq)
  then have "set (dup_order ids) = {}" unfolding set_dup_order by blast
  then show ?thesis by simp
qed

section \<open>Lemmas on \<open>same_ids\<close>\<close>

lemma get_dvk_sorted_at:
  assumes "handler_inv h" "i < length (sorted_ix h)"
  shows "get_dvk_sorted h (int i) = Inr (dvk_at h i)"
  using get_dvk_sorted_in[OF assms(1), of "int i"] assms(2)
  by (simp add: get_size_def dvk_at_def)

lemma ids_loop_eq:
  assumes "handler_inv h"
  shows "\<forall>i\<in>set js. i < length (sorted_ix h) \<Longrightarrow>
         ids_loop h js acc = Inr (acc @ map (\<lambda>i. get_id (dvk_at h i)) js)"
  by (induction js arbitrary: acc) (simp_all add: get_dvk_sorted_at[OF assms])

lemma files_loop_eq:
  assumes "handler_inv h"
  shows "\<forall>i\<in>set js. i < length (sorted_ix h) \<Longrightarrow>
         files_loop h js acc = Inr (acc @ map (\<lambda>i. get_file (dvk_at h i)) js)"
  by (induction js arbitrary: acc) (simp_all add: get_dvk_sorted_at[OF assms])

lemma length_sorted_ids: "length (sorted_ids h) = length (sorted_ix h)"
  by (simp add: sorted_ids_def)

lemma same_ids_scan:
  assumes "handler_inv h"
  shows "(let sz = nat (get_size h)
          in case ids_loop h [0..<sz] [] of
               Inl e \<Rightarrow> Inl e
             | Inr ids \<Rightarrow>
                 (let s_ids = outer_loop ids sz [0..<sz] []
                  in case files_loop h s_ids [] of
                       Inl e \<Rightarrow> Inl e
                     | Inr identicals \<Rightarrow> Inr (identicals, h)))
         = Inr (map (\<lambda>i. get_file (dvk_at h i)) (dup_order (sorted_ids h)), h)"
proof -
  let ?n = "length (sorted_ix h)"
  have sz: "nat (get_size h) = ?n" by (simp add: get_size_def)
  have ids: "ids_loop h [0..<?n] [] = Inr (sorted_ids h)"
    using ids_loop_eq[OF assms, of "[0..<?n]" "[]"] by (simp add: sorted_ids_def)
  have marks: "outer_loop (sorted_ids h) ?n [0..<?n] [] = dup_order (sorted_ids h)"
    using outer_loop_dup_order[of "sorted_ids h"] by (simp add: length_sorted_ids)
  have "\<forall>i\<in>set (dup_order (sorted_ids h)). i < ?n"
    by (simp add: set_dup_order length_sorted_ids)
  then have files: "files_loop h (dup_order (sorted_ids h)) [] =
      Inr (map (\<lambda>i. get_file (dvk_at h i)) (dup_order (sorted_ids h)))"
    using files_loop_eq[OF assms, of "dup_order (sorted_ids h)" "[]"] by simp
  show ?thesis by (simp add: sz ids marks files)
qed

lemma same_ids_Some:
  assumes "handler_inv h"
  shows "same_ids I fs dirs (Some h) =
     Inr (map (\<lambda>i. get_file (dvk_at (sort_dvks I (Some ''a'') True h) i))
            (dup_order (sorted_ids (sort_dvks I (Some ''a'') True h))),
          sort_dvks I (Some ''a'') True h)"
  using same_ids_scan[OF handler_inv_sort[OF assms, of I "Some ''a''" True]]
  by (simp add: same_ids_def Let_def)

lemma map_upt_nth: "map (\<lambda>i. F (xs ! i)) [0..<length xs] = map F xs"
  by (rule nth_equalityI) simp_all

lemma mset_at_positions:
  assumes "handler_inv h"
  shows "mset (map (\<lambda>i. f (dvk_at h i)) [0..<length (sorted_ix h)]) = mset (map f (dvks h))"
proof -
  let ?g = "\<lambda>k. f (dvks h ! nat k)"
  have "map (\<lambda>i. f (dvk_at h i)) [0..<length (sorted_ix h)]
      = map (\<lambda>i. ?g (sorted_ix h ! i)) [0..<length (sorted_ix h)]"
    by (simp add: dvk_at_def)
  also have "\<dots> = map ?g (sorted_ix h)" by (rule map_upt_nth)
  finally have "mset (map (\<lambda>i. f (dvk_at h i)) [0..<length (sorted_ix h)])
      = image_mset ?g (mset (sorted_ix h))" by simp
  also have "\<dots> = image_mset ?g (mset (map int [0..<length (dvks h)]))"
    using assms by (simp only: handler_inv_def)
  also have "\<dots> = mset (map ?g (map int [0..<length (dvks h)]))"
    by (simp only: mset_map)
  also have "map ?g (map int [0..<length (dvks h)]) = map (\<lambda>i. f (dvks h ! i)) [0..<length (dvks h)]"
    by simp
  also have "\<dots> = map f (dvks h)" by (rule map_upt_nth)
  finally show ?thesis .
qed

lemma mset_sorted_ids:
  "handler_inv h \<Longrightarrow> mset (sorted_ids h) = mset (map get_id (dvks h))"
  unfolding sorted_ids_def by (rule mset_at_positions)

lemma distinct_at_positions:
  assumes "handler_inv h" "distinct (map f (dvks h))"
  shows "inj_on (\<lambda>i. f (dvk_at h i)) {0..<length (sorted_ix h)}"
proof -
  have "distinct (map (\<lambda>i. f (dvk_at h i)) [0..<length (sorted_ix h)])"
    using mset_at_positions[OF assms(1), of f] assms(2) by (metis mset_eq_imp_distinct_iff)
  then show ?thesis by (simp add: distinct_map)
qed

lemma count_list_distinct: "distinct xs \<Longrightarrow> count_list xs x = (if x \<in> set xs then 1 else 0)"
  by (induction xs) auto

lemma same_ids_None:
  "load_dvks I fs dirs DvkHandler = Inr h \<Longrightarrow> same_ids I fs dirs None = same_ids I fs dirs (Some h)"
  by (simp add: same_ids_def)

lemma observed_order:
  assumes "sorted_ix h = map int [0..<length (dvks h)]"
  shows "map (dvk_at h) [0..<length (dvks h)] = dvks h"
  by (rule nth_equalityI) (simp_all add: dvk_at_def assms)

section \<open>Lemmas on the directory scan and on loading\<close>


























lemma load_dvks_inv: "load_dvks I fs ds h = Inr h' \<Longrightarrow> handler_inv h'"
  by (auto simp: load_dvks_def Let_def handler_inv_reset split: sum.splits)





section \<open>The fixture: facts\<close>

lemma test_handler_inv: "handler_inv test_handler"
  by (simp add: handler_inv_def test_handler_def upt_rec)

lemma test_handler_size: "get_size test_handler = 4"
  by (simp add: get_size_def test_handler_def)

lemma test_sorted_alpha:
  "sort_dvks test_helpers (Some ''a'') True test_handler =
     test_handler\<lparr>group_artists := True, dvks := [dvk1, dvk2, dvk3, dvk4]\<rparr>"
  by code_simp

lemma test_alpha_table:
  "map (\<lambda>x. map (\<lambda>y. compare_alpha test_helpers (test_handler\<lparr>group_artists := True\<rparr>)
                        (Some x) (Some y)) [dvk1, dvk2, dvk3, dvk4]) [dvk1, dvk2, dvk3, dvk4] =
   [[0, -1, -1, -1], [1, 0, -1, -1], [1, 1, 0, -1], [1, 1, 1, 0]]"
  by code_simp

lemma test_alpha_grouped:
  "mode_comparator test_helpers (sort_dvks test_helpers m True test_handler) ''a''
     = compare_alpha test_helpers (test_handler\<lparr>group_artists := True\<rparr>)"
proof -
  have "mode_comparator test_helpers (sort_dvks test_helpers m True test_handler) ''a''
      = compare_alpha test_helpers (sort_dvks test_helpers m True test_handler)"
    by (simp add: mode_comparator_def)
  also have "\<dots> = compare_alpha test_helpers (test_handler\<lparr>group_artists := True\<rparr>)"
    by (rule compare_alpha_flag) (simp add: sort_dvks_frame)
  finally show ?thesis .
qed

lemma test_consistent_alpha:
  "consistent_on (set (dvks test_handler))
     (compare_alpha test_helpers (test_handler\<lparr>group_artists := True\<rparr>))"
proof -
  let ?c = "compare_alpha test_helpers (test_handler\<lparr>group_artists := True\<rparr>)"
  have t: "?c (Some dvk1) (Some dvk1) = 0" "?c (Some dvk1) (Some dvk2) = -1"
    "?c (Some dvk1) (Some dvk3) = -1" "?c (Some dvk1) (Some dvk4) = -1"
    "?c (Some dvk2) (Some dvk1) = 1" "?c (Some dvk2) (Some dvk2) = 0"
    "?c (Some dvk2) (Some dvk3) = -1" "?c (Some dvk2) (Some dvk4) = -1"
    "?c (Some dvk3) (Some dvk1) = 1" "?c (Some dvk3) (Some dvk2) = 1"
    "?c (Some dvk3) (Some dvk3) = 0" "?c (Some dvk3) (Some dvk4) = -1"
    "?c (Some dvk4) (Some dvk1) = 1" "?c (Some dvk4) (Some dvk2) = 1"
    "?c (Some dvk4) (Some dvk3) = 1" "?c (Some dvk4) (Some dvk4) = 0"
    using test_alpha_table by simp_all
  have "consistent_on {dvk4, dvk1, dvk2, dvk3} ?c"
    unfolding consistent_on_def by (simp add: t)
  then show ?thesis by (simp add: test_handler_def)
qed

lemma test_sorted_ids:
  "sorted_ids (test_handler\<lparr>group_artists := True, dvks := [dvk1, dvk2, dvk3, dvk4]\<rparr>)
     = [''id1'', ''id2'', ''id1'', ''id1'']"
  by code_simp

lemma test_dup_order: "dup_order [''id1'', ''id2'', ''id1'', ''id1''] = [0, 2, 3]"
  by code_simp

lemma test_files:
  "get_file (dvk_at (test_handler\<lparr>group_artists := True,
                       dvks := [dvk1, dvk2, dvk3, dvk4]\<rparr>) 0) = get_file dvk1"
  "get_file (dvk_at (test_handler\<lparr>group_artists := True,
                       dvks := [dvk1, dvk2, dvk3, dvk4]\<rparr>) 2) = get_file dvk3"
  "get_file (dvk_at (test_handler\<lparr>group_artists := True,
                       dvks := [dvk1, dvk2, dvk3, dvk4]\<rparr>) 3) = get_file dvk4"
  by (simp_all add: dvk_at_def test_handler_def)

lemma test_files_distinct: "distinct (map get_file (dvks test_handler))"
  by code_simp

lemma test_marks:
  "outer_loop [''id1'', ''id2'', ''id1'', ''id1''] (length [''id1'', ''id2'', ''id1'', ''id1''])
     [0..<length [''id1'', ''id2'', ''id1'', ''id1'']] [] = [0, 2, 3]"
  by code_simp

lemma test_files_map:
  "map (\<lambda>i. get_file (dvk_at (test_handler\<lparr>group_artists := True,
                                  dvks := [dvk1, dvk2, dvk3, dvk4]\<rparr>) i)) [0, 2, 3]
     = [get_file dvk1, get_file dvk3, get_file dvk4]"
  by (simp only: list.map test_files)


lemma test_load:
  "load_dvks test_helpers test_fs (Some [Some ''finding'']) test_handler = Inr test_handler"
  by code_simp



lemma link_directories:
  "get_directories test_helpers link_fs (Some [Some ''/home'']) = Inr [[''home'', ''real'']]"
  "get_directories test_helpers link_fs (Some [Some ''alias'']) = Inr [[''home'', ''alias'']]"
  "get_directories test_helpers link_fs (Some [Some ''up/..'']) =
     Inr [[''home'', ''up'', ''..'', ''real'']]"
  "\<not> wf_node (root link_fs)"
  by code_simp+







lemma test_load_fresh:
  "load_dvks test_helpers test_fs (Some [Some ''finding'']) DvkHandler = Inr test_handler"
  by code_simp

lemma pair_handler_inv: "handler_inv pair_handler"
  by (simp add: handler_inv_def pair_handler_def upt_rec)

lemma pair_sorted:
  "sort_dvks test_helpers (Some ''a'') True pair_handler =
     pair_handler\<lparr>group_artists := True, dvks := [dvk_amy, dvk_zed]\<rparr>"
  by code_simp

lemma pair_table:
  "map (\<lambda>x. map (\<lambda>y. compare_alpha test_helpers (pair_handler\<lparr>group_artists := True\<rparr>)
                        (Some x) (Some y)) [dvk_zed, dvk_amy]) [dvk_zed, dvk_amy] =
   [[0, 1], [-1, 0]]"
  by code_simp

lemma pair_consistent:
  "consistent_on (set (dvks pair_handler))
     (compare_alpha test_helpers (sort_dvks test_helpers (Some ''a'') True pair_handler))"
proof -
  let ?c = "compare_alpha test_helpers (pair_handler\<lparr>group_artists := True\<rparr>)"
  have e: "compare_alpha test_helpers (sort_dvks test_helpers (Some ''a'') True pair_handler) = ?c"
    by (rule compare_alpha_flag) (simp add: sort_dvks_frame)
  have t: "?c (Some dvk_zed) (Some dvk_zed) = 0" "?c (Some dvk_zed) (Some dvk_amy) = 1"
    "?c (Some dvk_amy) (Some dvk_zed) = -1" "?c (Some dvk_amy) (Some dvk_amy) = 0"
    using pair_table by simp_all
  have "consistent_on {dvk_zed, dvk_amy} ?c"
    unfolding consistent_on_def by (simp add: t)
  moreover have "set (dvks pair_handler) = {dvk_zed, dvk_amy}" by (simp add: pair_handler_def)
  ultimately show ?thesis by (simp only: e)
qed

lemma pair_ids:
  "sorted_ids (pair_handler\<lparr>group_artists := True, dvks := [dvk_amy, dvk_zed]\<rparr>) = [''a1'', ''z1'']"
  by code_simp

lemma pair_dup_order: "dup_order [''a1'', ''z1''] = []"
  by code_simp

lemma pair_grouped:
  "artist_grouped_le test_helpers dvk_amy dvk_zed" "\<not> artist_grouped_le test_helpers dvk_zed dvk_amy"
  by code_simp+

lemma pair_ungrouped:
  "dvks (sort_dvks test_helpers (Some ''a'') False pair_handler) = [dvk_zed, dvk_amy]"
  by code_simp

lemma item_lower:
  "map (map lower) (get_artists (dvk_item ''ITEM2'')) = map (map lower) (get_artists (dvk_item ''item2''))"
  "map (map lower) (get_artists (dvk_item ''Item10'')) = map (map lower) (get_artists (dvk_item ''item10''))"
  by code_simp+

lemma item_values: "run_value ''2'' = 2" "run_value ''10'' = 10"
  by code_simp+

lemma item_digits: "list_all is_digit ''2''" "list_all is_digit ''10''" "\<not> is_digit (last ''item'')"
  by code_simp+

lemma zed_amy_fields:
  "spec_compare_alphanum (spec_list_to_string (get_artists dvk_amy))
     (spec_list_to_string (get_artists dvk_zed)) = - 1"
  "spec_compare_alphanum (get_title dvk_amy) (get_title dvk_zed) = 1"
  "get_time dvk_amy = get_time dvk_zed"
  "get_rating dvk_amy = 1" "get_rating dvk_zed = 3"
  "get_views dvk_amy = get_views dvk_zed"
  by code_simp+

lemma item_joined: "spec_list_to_string (get_artists (dvk_item a)) = a"
  by (simp add: dvk_item_def)

lemma item_same: "spec_compare_alphanum ''item'' ''item'' = 0"
  by code_simp

lemma item_case:
  "map (map lower) (get_artists (dvk_item ''Item'')) = map (map lower) (get_artists (dvk_item ''item''))"
  "map (map lower) (get_artists (dvk_item ''item'')) = map (map lower) (get_artists (dvk_item ''item''))"
  by code_simp+

lemma title_case: "map lower ''b'' = map lower (get_title dvk_amy)" "map lower ''a'' = map lower (get_title dvk_zed)"
  by code_simp+

lemma timed_fields:
  "get_time (dvk_amy\<lparr>get_time := ''2020/01/02|10:00''\<rparr>) <
     get_time (dvk_zed\<lparr>get_time := ''2020/01/10|09:00''\<rparr>)"
  "get_artists (dvk_amy\<lparr>get_time := t\<rparr>) = get_artists dvk_amy"
  "get_artists (dvk_zed\<lparr>get_time := t\<rparr>) = get_artists dvk_zed"
  by code_simp+

section \<open>Claims on the duplicate finder\<close>

text \<open>
  C1. Whether it is handed a loaded handler or loads one itself, \<open>same_ids\<close> sorts the
  records alphabetically with artist grouping and returns the file paths at the positions
  \<open>dup_order\<close> gives for the ids in sorted order: every cluster of positions that share an
  id, the first occurrence and then its partners in ascending position, the clusters in
  ascending position of their first member. The positions returned are exactly those whose id
  is the id of some other position, and when no two records share an id the result is the
  empty list.
\<close>

theorem same_ids_order:
  assumes "dvk_handler = Some h \<and> handler_inv h \<or>
           dvk_handler = None \<and> load_dvks I fs dirs DvkHandler = Inr h"
  shows "(let h' = sort_dvks I (Some ''a'') True h; ids = sorted_ids h'
          in same_ids I fs dirs dvk_handler =
               Inr (map (\<lambda>i. get_file (dvk_at h' i)) (dup_order ids), h') \<and>
             set (dup_order ids) = {p. p < length (dvks h') \<and> colliding ids p} \<and>
             (distinct (map get_id (dvks h)) \<longrightarrow> same_ids I fs dirs dvk_handler = Inr ([], h')))"
proof -
  let ?h = "sort_dvks I (Some ''a'') True h"
  have hinv: "handler_inv h" using assms load_dvks_inv by blast
  have route: "same_ids I fs dirs dvk_handler = same_ids I fs dirs (Some h)"
    using assms same_ids_None by blast
  have inv: "handler_inv ?h" using hinv by (rule handler_inv_sort)
  have len: "length (sorted_ids ?h) = length (dvks ?h)"
    using inv by (simp add: length_sorted_ids handler_inv_def)
  have run: "same_ids I fs dirs dvk_handler =
      Inr (map (\<lambda>i. get_file (dvk_at ?h i)) (dup_order (sorted_ids ?h)), ?h)"
    unfolding route using hinv by (rule same_ids_Some)
  have st: "set (dup_order (sorted_ids ?h)) =
      {p. p < length (dvks ?h) \<and> colliding (sorted_ids ?h) p}"
    using set_dup_order[of "sorted_ids ?h"] len by simp
  have none: "same_ids I fs dirs dvk_handler = Inr ([], ?h)"
    if d: "distinct (map get_id (dvks h))"
  proof -
    have "mset (sorted_ids ?h) = mset (map get_id (dvks h))"
      using mset_sorted_ids[OF inv] sort_dvks_frame[of I "Some ''a''" True h] by simp
    then have "distinct (sorted_ids ?h)" using d by (metis mset_eq_imp_distinct_iff)
    then show ?thesis using run by (simp add: dup_order_empty)
  qed
  show ?thesis using run st none by (simp add: Let_def)
qed

theorem same_ids_order_witness:
  "handler_inv test_handler \<and>
   load_dvks test_helpers test_fs (Some [Some ''finding'']) DvkHandler = Inr test_handler \<and>
   same_ids test_helpers test_fs None (Some test_handler) =
     Inr ([get_file dvk1, get_file dvk3, get_file dvk4],
          test_handler\<lparr>group_artists := True, dvks := [dvk1, dvk2, dvk3, dvk4]\<rparr>) \<and>
   same_ids test_helpers test_fs (Some [Some ''finding'']) None =
     Inr ([get_file dvk1, get_file dvk3, get_file dvk4],
          test_handler\<lparr>group_artists := True, dvks := [dvk1, dvk2, dvk3, dvk4]\<rparr>)"
proof -
  have a: "Some test_handler = Some test_handler \<and> handler_inv test_handler \<or>
           Some test_handler = None \<and>
           load_dvks test_helpers test_fs None DvkHandler = Inr test_handler"
    using test_handler_inv by simp
  have b: "(None :: dvk_handler option) = Some test_handler \<and> handler_inv test_handler \<or>
           (None :: dvk_handler option) = None \<and>
           load_dvks test_helpers test_fs (Some [Some ''finding'']) DvkHandler = Inr test_handler"
    using test_load_fresh by simp
  show ?thesis
    using same_ids_order[OF a] same_ids_order[OF b] test_handler_inv test_load_fresh
    unfolding Let_def test_sorted_alpha test_sorted_ids test_dup_order test_files_map
    by blast
qed

text \<open>
  C9. Given a loaded handler, \<open>same_ids\<close> reads no directory: whatever the file system and
  the directory argument, the handler it leaves is the caller's handler sorted with mode \<open>a\<close>
  and \<open>group_artists\<close> set, with the same records, index and paths. Whatever their order
  before, the records are then in alphabetic artist-grouped order: of two records the earlier
  one has the smaller joined artist string under \<open>compare_alphanum\<close>, or the same and the
  smaller title, or the same of both and a time that is not later. This holds provided the
  comparator is consistent on the records; with the identity index that \<open>load_dvks\<close> leaves,
  it is the order in which \<open>get_dvk_sorted\<close> presents them.
\<close>

theorem same_ids_sorts_handler:
  assumes "handler_inv h"
    and "consistent_on (set (dvks h)) (compare_alpha I (sort_dvks I (Some ''a'') True h))"
  shows "(let h' = sort_dvks I (Some ''a'') True h
          in same_ids I fs dirs (Some h) =
               Inr (map (\<lambda>i. get_file (dvk_at h' i)) (dup_order (sorted_ids h')), h') \<and>
             group_artists h' \<and> sorted_under (compare_alpha I h') (dvks h') \<and>
             sorted_wrt (artist_grouped_le I) (dvks h') \<and>
             mset (dvks h') = mset (dvks h) \<and> sorted_ix h' = sorted_ix h \<and>
             paths h' = paths h \<and>
             (sorted_ix h = map int [0..<length (dvks h)] \<longrightarrow>
                map (dvk_at h') [0..<length (dvks h')] = dvks h'))"
proof -
  let ?h = "sort_dvks I (Some ''a'') True h"
  have m: "mode_comparator I ?h ''a'' = compare_alpha I ?h" by (simp add: mode_comparator_def)
  have "sorted_under (mode_comparator I ?h ''a'') (dvks ?h)"
    using assms(1) assms(2)[folded m] by (rule sort_dvks_sorted)
  then have s: "sorted_under (compare_alpha I ?h) (dvks ?h)" by (simp only: m)
  have g: "group_artists ?h" by (simp add: sort_dvks_frame)
  have sg: "sorted_wrt (artist_grouped_le I) (dvks ?h)" using g s by (rule sorted_grouped)
  have f: "sorted_ix ?h = sorted_ix h" "length (dvks ?h) = length (dvks h)"
    using sort_dvks_frame[of I "Some ''a''" True h] by (simp, metis size_mset)
  have "map (dvk_at ?h) [0..<length (dvks ?h)] = dvks ?h"
    if "sorted_ix h = map int [0..<length (dvks h)]"
    using that f by (intro observed_order) simp
  then show ?thesis
    using s sg same_ids_Some[OF assms(1), of I fs dirs] sort_dvks_frame[of I "Some ''a''" True h]
    by (simp add: Let_def)
qed

theorem same_ids_sorts_handler_witness:
  "handler_inv pair_handler \<and>
   consistent_on (set (dvks pair_handler))
     (compare_alpha test_helpers (sort_dvks test_helpers (Some ''a'') True pair_handler)) \<and>
   dvks pair_handler = [dvk_zed, dvk_amy] \<and>
   same_ids test_helpers test_fs None (Some pair_handler) =
     Inr ([], pair_handler\<lparr>group_artists := True, dvks := [dvk_amy, dvk_zed]\<rparr>) \<and>
   sorted_wrt (artist_grouped_le test_helpers) [dvk_amy, dvk_zed] \<and>
   \<not> sorted_wrt (artist_grouped_le test_helpers) [dvk_zed, dvk_amy] \<and>
   dvks (sort_dvks test_helpers (Some ''a'') False pair_handler) = [dvk_zed, dvk_amy]"
proof -
  note t = same_ids_sorts_handler[OF pair_handler_inv pair_consistent, of test_fs None]
  have r: "same_ids test_helpers test_fs None (Some pair_handler) =
     Inr ([], pair_handler\<lparr>group_artists := True, dvks := [dvk_amy, dvk_zed]\<rparr>)"
    using t by (simp add: Let_def pair_sorted pair_ids pair_dup_order)
  have s: "sorted_wrt (artist_grouped_le test_helpers) [dvk_amy, dvk_zed]"
    using t by (simp add: Let_def pair_sorted)
  have n: "\<not> sorted_wrt (artist_grouped_le test_helpers) [dvk_zed, dvk_amy]"
    by (simp add: pair_grouped)
  show ?thesis using r s n pair_handler_inv pair_consistent pair_ungrouped
    by (simp add: pair_handler_def)
qed

text \<open>
  C10. The marking scan appends no position twice: the list of marked positions is distinct
  and holds every position once if its id collides and not at all otherwise. When the file
  paths of the loaded records are distinct, as on a file system they are, the returned list
  holds the path of every colliding record exactly once.
\<close>

theorem same_ids_once:
  assumes "handler_inv h" and "distinct (map get_file (dvks h))"
  shows "(let h' = sort_dvks I (Some ''a'') True h; ids = sorted_ids h';
              s_ids = outer_loop ids (length ids) [0..<length ids] [];
              identicals = map (\<lambda>i. get_file (dvk_at h' i)) s_ids
          in same_ids I fs dirs (Some h) = Inr (identicals, h') \<and>
             distinct s_ids \<and> distinct identicals \<and>
             (\<forall>p<length ids. count_list s_ids p = (if colliding ids p then 1 else 0)) \<and>
             (\<forall>p<length ids. count_list identicals (get_file (dvk_at h' p))
                               = (if colliding ids p then 1 else 0)))"
proof -
  let ?h = "sort_dvks I (Some ''a'') True h"
  let ?ids = "sorted_ids ?h"
  let ?s = "outer_loop ?ids (length ?ids) [0..<length ?ids] []"
  let ?f = "\<lambda>i. get_file (dvk_at ?h i)"
  have inv: "handler_inv ?h" using assms(1) by (rule handler_inv_sort)
  have s: "?s = dup_order ?ids" by (rule outer_loop_dup_order)
  have run: "same_ids I fs dirs (Some h) = Inr (map ?f ?s, ?h)"
    using same_ids_Some[OF assms(1), of I fs dirs] by (simp only: s)
  have ds: "distinct ?s" by (simp only: s distinct_dup_order)
  have "mset (map get_file (dvks ?h)) = mset (map get_file (dvks h))"
    using sort_dvks_frame[of I "Some ''a''" True h] by simp
  then have "distinct (map get_file (dvks ?h))"
    using assms(2) by (metis mset_eq_imp_distinct_iff)
  then have inj: "inj_on ?f {0..<length (sorted_ix ?h)}"
    using distinct_at_positions[OF inv, of get_file] by simp
  have sub: "set ?s \<subseteq> {0..<length (sorted_ix ?h)}"
    unfolding s set_dup_order by (auto simp: length_sorted_ids)
  have df: "distinct (map ?f ?s)"
    using ds inj sub by (simp add: distinct_map inj_on_subset)
  have cs: "count_list ?s p = (if colliding ?ids p then 1 else 0)" if "p < length ?ids" for p
    using that by (simp add: count_list_distinct[OF ds]) (simp add: s set_dup_order)
  have cf: "count_list (map ?f ?s) (?f p) = (if colliding ?ids p then 1 else 0)"
    if p: "p < length ?ids" for p
  proof -
    have pin: "p \<in> {0..<length (sorted_ix ?h)}" using p by (simp add: length_sorted_ids)
    have "?f p \<in> set (map ?f ?s) \<longleftrightarrow> p \<in> set ?s"
    proof
      assume "?f p \<in> set (map ?f ?s)"
      then obtain q where q: "q \<in> set ?s" "?f q = ?f p" by auto
      then have "q = p" using inj sub pin by (meson inj_onD subsetD)
      then show "p \<in> set ?s" using q by simp
    next
      assume "p \<in> set ?s"
      then show "?f p \<in> set (map ?f ?s)" by simp
    qed
    also have "\<dots> \<longleftrightarrow> colliding ?ids p" using p by (simp add: s set_dup_order)
    finally show ?thesis by (simp add: count_list_distinct[OF df])
  qed
  show ?thesis unfolding Let_def using run ds df cs cf by blast
qed

theorem same_ids_once_witness:
  "handler_inv test_handler \<and> distinct (map get_file (dvks test_handler)) \<and>
   same_ids test_helpers test_fs None (Some test_handler) =
     Inr ([get_file dvk1, get_file dvk3, get_file dvk4],
          test_handler\<lparr>group_artists := True, dvks := [dvk1, dvk2, dvk3, dvk4]\<rparr>) \<and>
   distinct [get_file dvk1, get_file dvk3, get_file dvk4]"
  using same_ids_once[OF test_handler_inv test_files_distinct, of test_helpers test_fs None]
    test_handler_inv test_files_distinct
  unfolding Let_def test_sorted_alpha test_sorted_ids test_marks test_files_map
  by blast

section \<open>Claims on sorting and on the comparators\<close>

text \<open>
  C2, as amended. For a loaded handler and a mode that is given, \<open>sort_dvks\<close> leaves \<open>dvks\<close>
  a permutation of the records that is sorted under the comparator of the mode: \<open>t\<close> the
  time comparator, \<open>r\<close> ratings, \<open>v\<close> views, every other string the alphabetic comparator,
  provided that comparator is consistent on the records. When the mode is absent (\<open>None\<close>)
  the records stay as they are.
\<close>

theorem sort_orders_records:
  assumes "handler_inv h"
    and "consistent_on (set (dvks h)) (mode_comparator I (sort_dvks I (Some t) g h) t)"
  shows "sorted_under (mode_comparator I (sort_dvks I (Some t) g h) t)
           (dvks (sort_dvks I (Some t) g h)) \<and>
         mset (dvks (sort_dvks I (Some t) g h)) = mset (dvks h) \<and>
         dvks (sort_dvks I None g h) = dvks h"
  using sort_dvks_sorted[OF assms] sort_dvks_frame[of I "Some t" g h]
  by (simp add: sort_dvks_None)

theorem sort_orders_records_witness:
  "handler_inv test_handler \<and>
   consistent_on (set (dvks test_handler))
     (mode_comparator test_helpers (sort_dvks test_helpers (Some ''a'') True test_handler) ''a'') \<and>
   dvks (sort_dvks test_helpers (Some ''a'') True test_handler) = [dvk1, dvk2, dvk3, dvk4] \<and>
   sorted_under (compare_alpha test_helpers (test_handler\<lparr>group_artists := True\<rparr>))
     [dvk1, dvk2, dvk3, dvk4]"
proof -
  have c: "consistent_on (set (dvks test_handler))
     (mode_comparator test_helpers (sort_dvks test_helpers (Some ''a'') True test_handler) ''a'')"
    using test_consistent_alpha by (simp only: test_alpha_grouped)
  have "sorted_under
      (mode_comparator test_helpers (sort_dvks test_helpers (Some ''a'') True test_handler) ''a'')
      (dvks (sort_dvks test_helpers (Some ''a'') True test_handler))"
    using sort_orders_records[OF test_handler_inv c] by blast
  then have "sorted_under (compare_alpha test_helpers (test_handler\<lparr>group_artists := True\<rparr>))
      (dvks (sort_dvks test_helpers (Some ''a'') True test_handler))"
    by (simp only: test_alpha_grouped)
  then show ?thesis
    using c test_handler_inv by (simp add: test_sorted_alpha)
qed

text \<open>
  C2, as stated, fails for the absent mode: \<open>sort_dvks(None, True)\<close> on the loaded fixture
  leaves \<open>dvk4\<close> in front of \<open>dvk1\<close>, which the alphabetic comparator orders the other way.
\<close>

theorem sort_absent_mode_counterexample:
  "handler_inv test_handler \<and> dvks test_handler \<noteq> [] \<and>
   consistent_on (set (dvks test_handler))
     (compare_alpha test_helpers (sort_dvks test_helpers None True test_handler)) \<and>
   dvks (sort_dvks test_helpers None True test_handler) = [dvk4, dvk1, dvk2, dvk3] \<and>
   \<not> sorted_under (compare_alpha test_helpers (sort_dvks test_helpers None True test_handler))
       (dvks (sort_dvks test_helpers None True test_handler))"
proof -
  have e: "compare_alpha test_helpers (sort_dvks test_helpers None True test_handler)
      = compare_alpha test_helpers (test_handler\<lparr>group_artists := True\<rparr>)"
    by (rule compare_alpha_flag) (simp add: sort_dvks_frame)
  have "compare_alpha test_helpers (test_handler\<lparr>group_artists := True\<rparr>)
          (Some dvk4) (Some dvk1) = 1"
    using test_alpha_table by simp
  then have "\<not> sorted_under (compare_alpha test_helpers (test_handler\<lparr>group_artists := True\<rparr>))
       [dvk4, dvk1, dvk2, dvk3]"
    by (simp add: sorted_under_def)
  then show ?thesis
    using test_handler_inv test_consistent_alpha
    by (simp add: e sort_dvks_None) (simp add: test_handler_def)
qed

text \<open>
  C5. With the helpers of the specification, and for a handler on which \<open>sort_dvks\<close> has
  set the grouping flag \<open>g\<close>: each comparator first compares the artist lists of two records,
  joined into single strings, with the natural comparison when \<open>g\<close> is set, and a non-zero
  result is the result. When \<open>g\<close> is not set or the artists tie, the time comparator compares
  the times lexically and, on a tie, the titles with the natural comparison; the ratings and
  the views comparators compare their number and, on a tie, return what the alphabetic
  comparator returns, which compares the titles with the natural comparison and, on a tie, the
  times lexically. The natural comparison does not see the case of letters, in the artists and
  in the titles, and where two strings end in runs of digits after a common text it compares
  the values of the runs.
\<close>

theorem comparator_chains:
  "(let I = spec_helpers rd; s = sort_dvks I m g h;
        a = spec_compare_alphanum (spec_list_to_string (get_artists x))
              (spec_list_to_string (get_artists y));
        ti = spec_compare_alphanum (get_title x) (get_title y);
        tm = (if get_time x < get_time y then - 1
              else if get_time y < get_time x then 1 else (0::int));
        al = (if ti \<noteq> 0 then ti else tm)
    in compare_artists I x y = a \<and>
       compare_time I s (Some x) (Some y) =
         (if g \<and> a \<noteq> 0 then a else if tm \<noteq> 0 then tm else ti) \<and>
       compare_ratings I s (Some x) (Some y) =
         (if g \<and> a \<noteq> 0 then a else if get_rating x < get_rating y then - 1
          else if get_rating y < get_rating x then 1 else al) \<and>
       compare_views I s (Some x) (Some y) =
         (if g \<and> a \<noteq> 0 then a else if get_views x < get_views y then - 1
          else if get_views y < get_views x then 1 else al) \<and>
       compare_alpha I s (Some x) (Some y) = (if g \<and> a \<noteq> 0 then a else al) \<and>
       (\<forall>x' y'. map (map lower) (get_artists x') = map (map lower) (get_artists x) \<and>
                map (map lower) (get_artists y') = map (map lower) (get_artists y) \<longrightarrow>
                compare_artists I x' y' = a) \<and>
       (\<forall>u v. map lower u = map lower (get_title x) \<and> map lower v = map lower (get_title y) \<longrightarrow>
              spec_compare_alphanum u v = ti) \<and>
       (\<forall>p d e. (p = [] \<or> \<not> is_digit (last p)) \<and>
                d \<noteq> [] \<and> list_all is_digit d \<and> e \<noteq> [] \<and> list_all is_digit e \<longrightarrow>
                spec_compare_alphanum (p @ d) (p @ e) =
                  (if run_value d < run_value e then - 1
                   else if run_value e < run_value d then 1 else 0)))"
proof -
  let ?I = "spec_helpers rd"
  let ?s = "sort_dvks ?I m g h"
  have g: "group_artists ?s = g" by (simp add: sort_dvks_frame)
  have h: "compare_alphanum ?I = spec_compare_alphanum"
    "compare_strings ?I = spec_compare_strings"
    by (simp_all add: spec_helpers_def)
  have 1: "compare_time ?I ?s (Some x) (Some y) =
      (if g \<and> compare_artists ?I x y \<noteq> 0 then compare_artists ?I x y
       else if spec_compare_strings (get_time x) (get_time y) \<noteq> 0
            then spec_compare_strings (get_time x) (get_time y)
            else spec_compare_alphanum (get_title x) (get_title y))"
    by (simp only: comparator_chain_any g h)
  have 4: "compare_alpha ?I ?s (Some x) (Some y) =
      (if g \<and> compare_artists ?I x y \<noteq> 0 then compare_artists ?I x y
       else if spec_compare_alphanum (get_title x) (get_title y) \<noteq> 0
            then spec_compare_alphanum (get_title x) (get_title y)
            else spec_compare_strings (get_time x) (get_time y))"
    by (simp only: comparator_chain_any g h)
  have 2: "compare_ratings ?I ?s (Some x) (Some y) =
      (if g \<and> compare_artists ?I x y \<noteq> 0 then compare_artists ?I x y
       else if get_rating x < get_rating y then - 1
       else if get_rating y < get_rating x then 1
       else compare_alpha ?I ?s (Some x) (Some y))"
    by (simp only: comparator_chain_any(2) g)
  have 3: "compare_views ?I ?s (Some x) (Some y) =
      (if g \<and> compare_artists ?I x y \<noteq> 0 then compare_artists ?I x y
       else if get_views x < get_views y then - 1
       else if get_views y < get_views x then 1
       else compare_alpha ?I ?s (Some x) (Some y))"
    by (simp only: comparator_chain_any(3) g)
  have a: "compare_artists ?I x y =
      spec_compare_alphanum (spec_list_to_string (get_artists x))
        (spec_list_to_string (get_artists y))"
    by (rule compare_artists_spec)
  show ?thesis
    unfolding Let_def a[symmetric]
  proof (intro conjI allI impI)
    show "compare_artists ?I x y = compare_artists ?I x y" by (rule refl)
    show "compare_time ?I ?s (Some x) (Some y) =
        (if g \<and> compare_artists ?I x y \<noteq> 0 then compare_artists ?I x y
         else if (if get_time x < get_time y then - 1
                  else if get_time y < get_time x then 1 else (0::int)) \<noteq> 0
              then if get_time x < get_time y then - 1
                   else if get_time y < get_time x then 1 else 0
              else spec_compare_alphanum (get_title x) (get_title y))"
      unfolding 1 by (simp add: spec_compare_strings_def)
    show "compare_alpha ?I ?s (Some x) (Some y) =
        (if g \<and> compare_artists ?I x y \<noteq> 0 then compare_artists ?I x y
         else if spec_compare_alphanum (get_title x) (get_title y) \<noteq> 0
              then spec_compare_alphanum (get_title x) (get_title y)
              else if get_time x < get_time y then - 1
                   else if get_time y < get_time x then 1 else 0)"
      unfolding 4 by (simp add: spec_compare_strings_def)
    show "compare_ratings ?I ?s (Some x) (Some y) =
        (if g \<and> compare_artists ?I x y \<noteq> 0 then compare_artists ?I x y
         else if get_rating x < get_rating y then - 1
         else if get_rating y < get_rating x then 1
         else if spec_compare_alphanum (get_title x) (get_title y) \<noteq> 0
              then spec_compare_alphanum (get_title x) (get_title y)
              else if get_time x < get_time y then - 1
                   else if get_time y < get_time x then 1 else 0)"
      unfolding 2 4 by (simp add: spec_compare_strings_def)
    show "compare_views ?I ?s (Some x) (Some y) =
        (if g \<and> compare_artists ?I x y \<noteq> 0 then compare_artists ?I x y
         else if get_views x < get_views y then - 1
         else if get_views y < get_views x then 1
         else if spec_compare_alphanum (get_title x) (get_title y) \<noteq> 0
              then spec_compare_alphanum (get_title x) (get_title y)
              else if get_time x < get_time y then - 1
                   else if get_time y < get_time x then 1 else 0)"
      unfolding 3 4 by (simp add: spec_compare_strings_def)
  next
    fix x' y' :: dvk
    assume "map (map lower) (get_artists x') = map (map lower) (get_artists x) \<and>
        map (map lower) (get_artists y') = map (map lower) (get_artists y)"
    then show "compare_artists ?I x' y' = compare_artists ?I x y"
      by (intro compare_artists_case) simp_all
  next
    fix u v
    assume "map lower u = map lower (get_title x) \<and> map lower v = map lower (get_title y)"
    then show "spec_compare_alphanum u v = spec_compare_alphanum (get_title x) (get_title y)"
      by (intro alphanum_case) simp_all
  next
    fix p d e
    assume "(p = [] \<or> \<not> is_digit (last p)) \<and>
        d \<noteq> [] \<and> list_all is_digit d \<and> e \<noteq> [] \<and> list_all is_digit e"
    then show "spec_compare_alphanum (p @ d) (p @ e) =
        (if run_value d < run_value e then - 1 else if run_value e < run_value d then 1 else 0)"
      by (intro alphanum_numeric) simp_all
  qed
qed

theorem comparator_chains_witness:
  "compare_artists test_helpers (dvk_item ''item2'') (dvk_item ''item10'') = - 1 \<and>
   compare_artists test_helpers (dvk_item ''ITEM2'') (dvk_item ''Item10'') = - 1 \<and>
   compare_artists test_helpers (dvk_item ''Item'') (dvk_item ''item'') = 0 \<and>
   spec_compare_alphanum ''b'' ''a'' = 1 \<and>
   compare_alpha test_helpers (sort_dvks test_helpers None True DvkHandler)
     (Some dvk_amy) (Some dvk_zed) = - 1 \<and>
   compare_alpha test_helpers (sort_dvks test_helpers None False DvkHandler)
     (Some dvk_amy) (Some dvk_zed) = 1 \<and>
   compare_time test_helpers (sort_dvks test_helpers None False DvkHandler)
     (Some dvk_amy) (Some dvk_zed) = 1 \<and>
   compare_time test_helpers (sort_dvks test_helpers None False DvkHandler)
     (Some (dvk_amy\<lparr>get_time := ''2020/01/02|10:00''\<rparr>))
     (Some (dvk_zed\<lparr>get_time := ''2020/01/10|09:00''\<rparr>)) = - 1 \<and>
   compare_ratings test_helpers (sort_dvks test_helpers None False DvkHandler)
     (Some dvk_amy) (Some dvk_zed) = - 1 \<and>
   compare_views test_helpers (sort_dvks test_helpers None True DvkHandler)
     (Some dvk_amy) (Some dvk_zed) = - 1"
proof -
  note i = comparator_chains[of test_read None True DvkHandler "dvk_item ''item2''"
      "dvk_item ''item10''", folded test_helpers_def, unfolded Let_def item_joined]
  note i_artists = i[THEN conjunct1]
  note i_case = i[THEN conjunct2, THEN conjunct2, THEN conjunct2, THEN conjunct2,
      THEN conjunct2, THEN conjunct1]
  note i_value = i[THEN conjunct2, THEN conjunct2, THEN conjunct2, THEN conjunct2,
      THEN conjunct2, THEN conjunct2, THEN conjunct2]
  have v: "spec_compare_alphanum ''item2'' ''item10'' = - 1"
  proof -
    have "(''item'' = [] \<or> \<not> is_digit (last ''item'')) \<and>
          ''2'' \<noteq> [] \<and> list_all is_digit ''2'' \<and> ''10'' \<noteq> [] \<and> list_all is_digit ''10''"
      using item_digits by simp
    then have "spec_compare_alphanum (''item'' @ ''2'') (''item'' @ ''10'') =
           (if run_value ''2'' < run_value ''10'' then - 1
            else if run_value ''10'' < run_value ''2'' then 1 else 0)"
      using i_value by blast
    then show ?thesis by (simp add: item_values)
  qed
  have n: "compare_artists test_helpers (dvk_item ''item2'') (dvk_item ''item10'') = - 1"
    using i_artists v by (simp only: )
  have c: "compare_artists test_helpers (dvk_item ''ITEM2'') (dvk_item ''Item10'') = - 1"
  proof -
    have "compare_artists test_helpers (dvk_item ''ITEM2'') (dvk_item ''Item10'') =
          spec_compare_alphanum ''item2'' ''item10''"
      using i_case item_lower by blast
    then show ?thesis by (simp only: v)
  qed
  note j = comparator_chains[of test_read None True DvkHandler "dvk_item ''item''"
      "dvk_item ''item''", folded test_helpers_def, unfolded Let_def item_joined]
  note j_case = j[THEN conjunct2, THEN conjunct2, THEN conjunct2, THEN conjunct2,
      THEN conjunct2, THEN conjunct1]
  have e: "compare_artists test_helpers (dvk_item ''Item'') (dvk_item ''item'') = 0"
  proof -
    have "compare_artists test_helpers (dvk_item ''Item'') (dvk_item ''item'') =
          spec_compare_alphanum ''item'' ''item''"
      using j_case item_case by blast
    then show ?thesis by (simp only: item_same)
  qed
  have z: "\<not> get_time dvk_amy < get_time dvk_zed" "\<not> get_time dvk_zed < get_time dvk_amy"
    "\<not> get_views dvk_amy < get_views dvk_zed" "\<not> get_views dvk_zed < get_views dvk_amy"
    "get_rating dvk_amy < get_rating dvk_zed"
    by (simp_all add: zed_amy_fields)
  note t = comparator_chains[of test_read None True DvkHandler dvk_amy dvk_zed,
      folded test_helpers_def, unfolded Let_def]
  note f = comparator_chains[of test_read None False DvkHandler dvk_amy dvk_zed,
      folded test_helpers_def, unfolded Let_def]
  note u = comparator_chains[of test_read None False DvkHandler
      "dvk_amy\<lparr>get_time := ''2020/01/02|10:00''\<rparr>" "dvk_zed\<lparr>get_time := ''2020/01/10|09:00''\<rparr>",
      folded test_helpers_def, unfolded Let_def]
  note t_title = t[THEN conjunct2, THEN conjunct2, THEN conjunct2, THEN conjunct2,
      THEN conjunct2, THEN conjunct2, THEN conjunct1]
  have b: "spec_compare_alphanum ''b'' ''a'' = 1"
  proof -
    have "spec_compare_alphanum ''b'' ''a'' =
        spec_compare_alphanum (get_title dvk_amy) (get_title dvk_zed)"
      using t_title title_case by blast
    then show ?thesis by (simp only: zed_amy_fields)
  qed
  have 1: "compare_alpha test_helpers (sort_dvks test_helpers None True DvkHandler)
     (Some dvk_amy) (Some dvk_zed) = - 1"
    using t[THEN conjunct2, THEN conjunct2, THEN conjunct2, THEN conjunct2, THEN conjunct1]
    by (simp only: zed_amy_fields z) simp
  have 2: "compare_alpha test_helpers (sort_dvks test_helpers None False DvkHandler)
     (Some dvk_amy) (Some dvk_zed) = 1"
    using f[THEN conjunct2, THEN conjunct2, THEN conjunct2, THEN conjunct2, THEN conjunct1]
    by (simp only: zed_amy_fields z) simp
  have 3: "compare_time test_helpers (sort_dvks test_helpers None False DvkHandler)
     (Some dvk_amy) (Some dvk_zed) = 1"
    using f[THEN conjunct2, THEN conjunct1] by (simp only: zed_amy_fields z) simp
  have 4: "compare_ratings test_helpers (sort_dvks test_helpers None False DvkHandler)
     (Some dvk_amy) (Some dvk_zed) = - 1"
    using f[THEN conjunct2, THEN conjunct2, THEN conjunct1] by (simp only: zed_amy_fields z) simp
  have 5: "compare_views test_helpers (sort_dvks test_helpers None True DvkHandler)
     (Some dvk_amy) (Some dvk_zed) = - 1"
    using t[THEN conjunct2, THEN conjunct2, THEN conjunct2, THEN conjunct1]
    by (simp only: zed_amy_fields z) simp
  have 6: "compare_time test_helpers (sort_dvks test_helpers None False DvkHandler)
     (Some (dvk_amy\<lparr>get_time := ''2020/01/02|10:00''\<rparr>))
     (Some (dvk_zed\<lparr>get_time := ''2020/01/10|09:00''\<rparr>)) = - 1"
    using u[THEN conjunct2, THEN conjunct1] timed_fields(1) by simp
  show ?thesis using n c e b 1 2 3 4 5 6 by blast
qed

text \<open>
  C7. Sorting is idempotent: calling \<open>sort_dvks\<close> twice with the same mode and the same
  grouping flag leaves the handler as one call leaves it. Without a mode nothing is sorted;
  with a mode this holds whenever the comparator of the mode is consistent on the records of
  the handler, which is what makes the result of Python's \<open>sorted\<close> independent of the
  algorithm.
\<close>

theorem sort_idempotent:
  "sort_dvks I None g (sort_dvks I None g h) = sort_dvks I None g h \<and>
   (consistent_on (set (dvks h)) (mode_comparator I (sort_dvks I (Some t) g h) t) \<longrightarrow>
      sort_dvks I (Some t) g (sort_dvks I (Some t) g h) = sort_dvks I (Some t) g h)"
proof (intro conjI impI)
  show "sort_dvks I None g (sort_dvks I None g h) = sort_dvks I None g h"
    by (rule sort_dvks_twice) simp
next
  assume "consistent_on (set (dvks h)) (mode_comparator I (sort_dvks I (Some t) g h) t)"
  then show "sort_dvks I (Some t) g (sort_dvks I (Some t) g h) = sort_dvks I (Some t) g h"
    by (intro sort_dvks_twice) simp
qed

theorem sort_idempotent_witness:
  "consistent_on (set (dvks test_handler))
     (mode_comparator test_helpers (sort_dvks test_helpers (Some ''a'') True test_handler) ''a'') \<and>
   sort_dvks test_helpers (Some ''a'') True (sort_dvks test_helpers (Some ''a'') True test_handler)
     = test_handler\<lparr>group_artists := True, dvks := [dvk1, dvk2, dvk3, dvk4]\<rparr>"
proof -
  have c: "consistent_on (set (dvks test_handler))
     (mode_comparator test_helpers (sort_dvks test_helpers (Some ''a'') True test_handler) ''a'')"
    using test_consistent_alpha by (simp only: test_alpha_grouped)
  have "sort_dvks test_helpers (Some ''a'') True
          (sort_dvks test_helpers (Some ''a'') True test_handler)
        = sort_dvks test_helpers (Some ''a'') True test_handler"
    using sort_idempotent[of test_helpers True test_handler "''a''"] c by blast
  then show ?thesis using c by (simp only: test_sorted_alpha simp_thms)
qed

section \<open>Claims on the index\<close>

text \<open>
  C3. An index that is negative or not below \<open>get_size()\<close> makes \<open>get_dvk_sorted\<close> and
  \<open>get_dvk_direct\<close> return the sentinel empty record, without raising, in every state of the
  handler. For an index \<open>0 \<le> i < get_size()\<close> of a handler that satisfies the invariant of
  the data model, \<open>get_dvk_sorted(i)\<close> returns \<open>dvks[sorted[i]]\<close> and \<open>get_dvk_direct(i)\<close>
  returns \<open>dvks[i]\<close>.
\<close>

theorem index_access:
  "(i < 0 \<or> get_size h \<le> i \<longrightarrow>
      get_dvk_sorted h i = Inr Dvk \<and> get_dvk_direct h i = Inr Dvk) \<and>
   (handler_inv h \<and> 0 \<le> i \<and> i < get_size h \<longrightarrow>
      get_dvk_sorted h i = Inr (dvks h ! nat (sorted_ix h ! nat i)) \<and>
      get_dvk_direct h i = Inr (dvks h ! nat i))"
proof (intro conjI impI)
  assume "i < 0 \<or> get_size h \<le> i"
  then show "get_dvk_sorted h i = Inr Dvk" "get_dvk_direct h i = Inr Dvk"
    by (auto simp: get_dvk_sorted_def get_dvk_direct_def)
next
  assume a: "handler_inv h \<and> 0 \<le> i \<and> i < get_size h"
  then show "get_dvk_sorted h i = Inr (dvks h ! nat (sorted_ix h ! nat i))"
    by (simp add: get_dvk_sorted_in)
  from a show "get_dvk_direct h i = Inr (dvks h ! nat i)"
    by (simp add: get_dvk_direct_in)
qed

theorem index_access_witness:
  "handler_inv test_handler \<and>
   get_dvk_sorted test_handler 4 = Inr Dvk \<and> get_dvk_direct test_handler 4 = Inr Dvk \<and>
   get_dvk_sorted test_handler (- 1) = Inr Dvk \<and> get_dvk_direct test_handler (- 1) = Inr Dvk \<and>
   get_dvk_sorted test_handler 2 = Inr dvk2 \<and> get_dvk_direct test_handler 3 = Inr dvk3"
  using index_access[of 4 test_handler] index_access[of "- 1" test_handler]
    index_access[of 2 test_handler] index_access[of 3 test_handler]
    test_handler_inv test_handler_size
  by (simp add: test_handler_def)



text \<open>
  C6. The invariant, \<open>sorted\<close> as long as \<open>dvks\<close> and a permutation of \<open>0..n-1\<close>, holds for
  the handler as constructed and after \<open>reset_sorted\<close> and \<open>load_dvks\<close>, and \<open>sort_dvks\<close> and
  \<open>same_ids\<close> keep it; the accessors change nothing. Under the invariant neither accessor
  raises for any index, and every value of \<open>sorted\<close> that \<open>get_dvk_sorted\<close> reads is a valid
  position of \<open>dvks\<close>.
\<close>

theorem order_invariant:
  "handler_inv DvkHandler \<and> handler_inv (reset_sorted h) \<and>
   (load_dvks I fs ds h = Inr h' \<longrightarrow> handler_inv h') \<and>
   (handler_inv h \<longrightarrow> handler_inv (sort_dvks I m g h)) \<and>
   (handler_inv h \<longrightarrow>
      (\<exists>r. same_ids I fs ds (Some h) = Inr (r, sort_dvks I (Some ''a'') True h))) \<and>
   (handler_inv h \<longrightarrow>
      (\<forall>i. \<exists>d. get_dvk_sorted h i = Inr d) \<and> (\<forall>i. \<exists>d. get_dvk_direct h i = Inr d) \<and>
      (\<forall>i. 0 \<le> i \<and> i < get_size h \<longrightarrow>
           0 \<le> sorted_ix h ! nat i \<and> nat (sorted_ix h ! nat i) < length (dvks h)))"
proof (intro conjI impI allI)
  show "handler_inv DvkHandler" by (simp add: handler_inv_def DvkHandler_def)
  show "handler_inv (reset_sorted h)" by (rule handler_inv_reset)
  show "handler_inv h'" if "load_dvks I fs ds h = Inr h'" using that by (rule load_dvks_inv)
  show "handler_inv (sort_dvks I m g h)" if "handler_inv h" using that by (rule handler_inv_sort)
  show "\<exists>r. same_ids I fs ds (Some h) = Inr (r, sort_dvks I (Some ''a'') True h)"
    if "handler_inv h" using same_ids_Some[OF that, of I fs ds] by blast
next
  fix i
  assume inv: "handler_inv h"
  show "\<exists>d. get_dvk_direct h i = Inr d"
  proof (cases "0 \<le> i \<and> i < get_size h")
    case True
    then show ?thesis using get_dvk_direct_in[OF inv, of i] by simp
  next
    case False
    then show ?thesis by (auto simp: get_dvk_direct_def)
  qed
  show "\<exists>d. get_dvk_sorted h i = Inr d"
  proof (cases "0 \<le> i \<and> i < get_size h")
    case True
    then show ?thesis using get_dvk_sorted_in[OF inv, of i] by simp
  next
    case False
    then show ?thesis by (auto simp: get_dvk_sorted_def)
  qed
  assume r: "0 \<le> i \<and> i < get_size h"
  then have "nat i < length (sorted_ix h)" by (simp add: get_size_def nat_less_iff)
  from inv_nth_range[OF inv this]
  show "0 \<le> sorted_ix h ! nat i" "nat (sorted_ix h ! nat i) < length (dvks h)"
    by (simp_all add: nat_less_iff)
qed

theorem order_invariant_witness:
  "handler_inv test_handler \<and>
   load_dvks test_helpers test_fs (Some [Some ''finding'']) test_handler = Inr test_handler \<and>
   handler_inv (sort_dvks test_helpers (Some ''a'') True test_handler) \<and>
   get_dvk_sorted test_handler 2 = Inr dvk2"
proof -
  note t = order_invariant[of test_handler test_helpers test_fs "Some [Some ''finding'']"
      test_handler "Some ''a''" True]
  have "handler_inv test_handler" using t test_load by blast
  moreover from this have "handler_inv (sort_dvks test_helpers (Some ''a'') True test_handler)"
    using t by blast
  moreover have "get_dvk_sorted test_handler 2 = Inr dvk2"
    by (simp add: get_dvk_sorted_def get_dvk_direct_def get_size_def test_handler_def)
  ultimately show ?thesis using test_load by blast
qed

section \<open>Claim on the directory scan\<close>




end
